theory Spec2Isabelle
  imports Complex_Main "HOL-Library.Log_Nat"
begin

section \<open>Python numbers\<close>

text \<open>
  The generator is a Python script (\<^verbatim>\<open>make_sprites_flip_animations.py\<close>). Its integers
  are unbounded (\<open>int\<close>); \<^verbatim>\<open>//\<close> and \<^verbatim>\<open>%\<close> on them are floor division and its remainder,
  which is what \<open>div\<close> and \<open>mod\<close> on \<open>int\<close> are. Its \<^verbatim>\<open>/\<close> is true division and yields a
  binary64 float, also on two integers, so the geometry of the flip is computed in
  floating point. A finite float is represented by the rational it denotes.
  Exceptions are values of \<open>py_error\<close>.
\<close>

datatype py_error =
  ZeroDivisionError | OverflowError | IndexError | ValueError | LinAlgError | OSError

text \<open>Round to the nearest integer, ties to the even one.\<close>

definition round_even :: "rat \<Rightarrow> int" where
  "round_even q =
     (let f = \<lfloor>q\<rfloor>; r = q - of_int f
      in if r < 1 / 2 then f
         else if 1 / 2 < r then f + 1
         else if even f then f else f + 1)"

text \<open>
  The exponent \<open>e\<close> of the binade of a positive rational, \<open>2\<^sup>e \<le> q < 2\<^sup>e\<^sup>+\<^sup>1\<close>, and \<open>-1022\<close>
  below the normal range (gradual underflow).
\<close>

definition binade :: "rat \<Rightarrow> int" where
  "binade q =
     (let (n, d) = quotient_of q; t = bitlen n - bitlen d
      in max (if 2 powi t \<le> q then t else t - 1) (- 1022))"

text \<open>
  The binary64 value nearest to a rational: 53 significant bits, ties to even. The
  exponent is not bounded above here; the operations that can leave the range check it.
\<close>

definition to_double :: "rat \<Rightarrow> rat" where
  "to_double q =
     (if q = 0 then 0
      else let u = 2 powi (binade \<bar>q\<bar> - 52)
           in sgn q * (of_int (round_even (\<bar>q\<bar> / u)) * u))"

text \<open>
  \<^verbatim>\<open>a / b\<close> on two integers: the correctly rounded quotient; \<^verbatim>\<open>ZeroDivisionError\<close> for
  \<open>b = 0\<close> and \<^verbatim>\<open>OverflowError\<close> when the quotient is too large for a float.
\<close>

definition py_truediv :: "int \<Rightarrow> int \<Rightarrow> py_error + rat" where
  "py_truediv a b =
     (if b = 0 then Inl ZeroDivisionError
      else let r = to_double (of_int a / of_int b)
           in if 2 ^ 1024 \<le> \<bar>r\<bar> then Inl OverflowError else Inr r)"

text \<open>
  A number is an integer or a float. Mixed arithmetic converts the integer operand to a
  float and rounds the result. Image sizes are PIL sizes (C integers, below \<open>2\<^sup>3\<^sup>1\<close>) and
  the displacements are of the order of the padding, so no sum or product of this program
  leaves the finite range; infinities and NaN are not represented.
\<close>

datatype pynum = PInt int | PFloat rat

fun val :: "pynum \<Rightarrow> rat" where
  "val (PInt n) = of_int n"
| "val (PFloat x) = x"

fun py_float :: "pynum \<Rightarrow> rat" where
  "py_float (PInt n) = to_double (of_int n)"
| "py_float (PFloat x) = x"

fun py_add :: "pynum \<Rightarrow> pynum \<Rightarrow> pynum" where
  "py_add (PInt m) (PInt n) = PInt (m + n)"
| "py_add a b = PFloat (to_double (py_float a + py_float b))"

fun py_mul :: "pynum \<Rightarrow> pynum \<Rightarrow> pynum" where
  "py_mul (PInt m) (PInt n) = PInt (m * n)"
| "py_mul a b = PFloat (to_double (py_float a * py_float b))"

fun py_neg :: "pynum \<Rightarrow> pynum" where
  "py_neg (PInt n) = PInt (- n)"
| "py_neg (PFloat x) = PFloat (- x)"

text \<open>\<^verbatim>\<open>min(a, b)\<close> returns \<open>b\<close> when \<open>b < a\<close> and \<open>a\<close> otherwise; the comparison is exact.\<close>

definition py_min :: "pynum \<Rightarrow> pynum \<Rightarrow> pynum" where
  "py_min a b = (if val b < val a then b else a)"

text \<open>
  \<^verbatim>\<open>range(start, stop, step)\<close> as the list it iterates over; a zero step is a
  \<^verbatim>\<open>ValueError\<close>.
\<close>

definition py_range :: "int \<Rightarrow> int \<Rightarrow> int \<Rightarrow> py_error + int list" where
  "py_range start stop step =
     (if step = 0 then Inl ValueError
      else if 0 < step
      then Inr (map (\<lambda>k. start + int k * step)
                  [0 ..< nat ((stop - start + step - 1) div step)])
      else Inr (map (\<lambda>k. start + int k * step)
                  [0 ..< nat ((start - stop - step - 1) div (- step))]))"

section \<open>Images\<close>

text \<open>
  A PIL image has a size and pixels. The pixels are kept as the term of PIL calls that
  produced them; the sizes are the ones PIL gives the result of each call.
\<close>

type_synonym colour = "nat \<times> nat \<times> nat"
type_synonym font = "string \<times> int"
type_synonym box = "int \<times> int \<times> int \<times> int"

datatype image = Image (width: nat) (height: nat) (pixels: pixels)
and pixels =
    Fill colour
  | Rectangle pixels "(int \<times> int) \<times> (int \<times> int)" colour colour
  | Text pixels "int \<times> int" string colour font
  | Crop image box
  | Transform image "rat list"
  | Paste pixels image "int \<times> int"
  | Convert pixels

text \<open>\<^verbatim>\<open>Image.new("RGBA", size, color=c)\<close>; a negative size is a \<^verbatim>\<open>ValueError\<close>.\<close>

definition image_new :: "int \<times> int \<Rightarrow> colour \<Rightarrow> py_error + image" where
  "image_new sz c =
     (if fst sz < 0 \<or> snd sz < 0 then Inl ValueError
      else Inr (Image (nat (fst sz)) (nat (snd sz)) (Fill c)))"

text \<open>
  \<^verbatim>\<open>img.crop((left, upper, right, lower))\<close>: an image of size
  \<open>(right - left, lower - upper)\<close>. The boxes of this program have \<open>left \<le> right\<close> and
  \<open>upper \<le> lower\<close>.
\<close>

fun crop :: "image \<Rightarrow> box \<Rightarrow> image" where
  "crop img (left, upper, right, lower) =
     Image (nat (right - left)) (nat (lower - upper)) (Crop img (left, upper, right, lower))"

text \<open>\<^verbatim>\<open>img.transform(size, Image.PERSPECTIVE, coeffs, Image.BICUBIC)\<close>.\<close>

definition transform :: "image \<Rightarrow> nat \<times> nat \<Rightarrow> rat list \<Rightarrow> image" where
  "transform img sz coeffs = Image (fst sz) (snd sz) (Transform img coeffs)"

text \<open>
  \<^verbatim>\<open>sheet.paste(tile, coords, tile)\<close> changes the sheet in place, clipping what falls
  outside; the sheet after the call is returned.
\<close>

definition paste :: "image \<Rightarrow> image \<Rightarrow> int \<times> int \<Rightarrow> image" where
  "paste sheet tile coords =
     Image (width sheet) (height sheet) (Paste (pixels sheet) tile coords)"

text \<open>\<^verbatim>\<open>img.convert(mode="P", palette=Image.WEB)\<close>.\<close>

definition convert :: "image \<Rightarrow> image" where
  "convert img = Image (width img) (height img) (Convert (pixels img))"

text \<open>The tiles pasted onto a sheet with their offsets, in the order of the calls.\<close>

fun placements :: "pixels \<Rightarrow> (image \<times> (int \<times> int)) list" where
  "placements (Paste p tile coords) = placements p @ [(tile, coords)]"
| "placements (Convert p) = placements p"
| "placements _ = []"

text \<open>
  What the script takes from its libraries without computing it: loading a font
  (\<^verbatim>\<open>ImageFont.truetype\<close>, which fails on a missing file), measuring a text
  (\<^verbatim>\<open>ImageDraw.textsize\<close>), and the linear algebra of numpy,
  \<^verbatim>\<open>numpy.dot(numpy.linalg.inv(A.T * A) * A.T, B)\<close> reshaped to 8 entries, which fails
  on a singular matrix.
\<close>

record env =
  truetype :: "string \<Rightarrow> int \<Rightarrow> py_error + font"
  textsize :: "string \<Rightarrow> font \<Rightarrow> int \<times> int"
  linalg :: "rat list list \<Rightarrow> pynum list \<Rightarrow> py_error + rat list"

section \<open>The generator\<close>

definition DEFAULT_FONT :: string where
  "DEFAULT_FONT = ''LeagueSpartan-Regular.ttf''"

definition DEFAULT_FONT_SIZE :: int where
  "DEFAULT_FONT_SIZE = 44"

definition TILE_WIDTH :: int where
  "TILE_WIDTH = 48"

definition TILE_HEIGHT :: int where
  "TILE_HEIGHT = 100"

definition TILE_COLOR :: colour where
  "TILE_COLOR = (90, 90, 90)"

definition FONT_COLOR :: colour where
  "FONT_COLOR = (255, 255, 255)"

definition PADDING_SIZE :: int where
  "PADDING_SIZE = 8"

definition TRANSPARENCY_COLOR :: colour where
  "TRANSPARENCY_COLOR = (0, 255, 0)"

definition BACKGROUND_COLOR :: colour where
  "BACKGROUND_COLOR = TRANSPARENCY_COLOR"

type_synonym point = "pynum \<times> pynum"

subsection \<open>find_coeffs\<close>

text \<open>
  Two rows of the system per pair of points; the matrix is converted to floats, the
  right-hand side is \<open>pb\<close> flattened (\<^verbatim>\<open>reshape(8)\<close> needs 4 points), and numpy solves.
\<close>

fun matrix_rows :: "point \<times> point \<Rightarrow> pynum list list" where
  "matrix_rows (p1, p2) =
     [[fst p1, snd p1, PInt 1, PInt 0, PInt 0, PInt 0,
       py_mul (py_neg (fst p2)) (fst p1), py_mul (py_neg (fst p2)) (snd p1)],
      [PInt 0, PInt 0, PInt 0, fst p1, snd p1, PInt 1,
       py_mul (py_neg (snd p2)) (fst p1), py_mul (py_neg (snd p2)) (snd p1)]]"

definition find_coeffs :: "env \<Rightarrow> point list \<Rightarrow> point list \<Rightarrow> py_error + rat list" where
  "find_coeffs e pa pb =
     (let matrix = concat (map matrix_rows (zip pa pb));
          A = map (map py_float) matrix
      in if length pb \<noteq> 4 then Inl ValueError
         else linalg e A (concat (map (\<lambda>p. [fst p, snd p]) pb)))"

subsection \<open>The two planners\<close>

definition top_x_val :: "int \<Rightarrow> py_error + rat" where
  "top_x_val angle = py_truediv (angle * PADDING_SIZE) 90"

definition bottom_x_val :: "int \<Rightarrow> py_error + rat" where
  "bottom_x_val angle = py_truediv ((90 - angle) * PADDING_SIZE) 90"

definition y_val :: "image \<Rightarrow> int \<Rightarrow> py_error + pynum" where
  "y_val img angle =
     (case py_truediv (angle * int (height img)) 90 of
        Inl err \<Rightarrow> Inl err
      | Inr q \<Rightarrow> Inr (py_min (PFloat q) (PInt (int (height img) - 1))))"

definition second_list :: "image \<Rightarrow> point list" where
  "second_list img =
     [(PInt 0, PInt 0), (PInt (int (width img)), PInt 0),
      (PInt (int (width img)), PInt (int (height img))), (PInt 0, PInt (int (height img)))]"

definition find_top_half_coeffs_inputs_for_angle ::
  "image \<Rightarrow> int \<Rightarrow> py_error + point list \<times> point list" where
  "find_top_half_coeffs_inputs_for_angle img angle =
     (case top_x_val angle of
        Inl err \<Rightarrow> Inl err
      | Inr x \<Rightarrow>
          (case y_val img angle of
             Inl err \<Rightarrow> Inl err
           | Inr y \<Rightarrow>
               Inr ([(py_neg (py_add (PFloat x) (PInt 1)), y),
                     (py_add (PInt (int (width img))) (PFloat x), y),
                     (PInt (int (width img)), PInt (int (height img))),
                     (PInt 0, PInt (int (height img)))],
                    second_list img)))"

definition find_bottom_half_coeffs_inputs_for_angle ::
  "image \<Rightarrow> int \<Rightarrow> py_error + point list \<times> point list" where
  "find_bottom_half_coeffs_inputs_for_angle img angle =
     (case bottom_x_val angle of
        Inl err \<Rightarrow> Inl err
      | Inr x \<Rightarrow>
          (case y_val img angle of
             Inl err \<Rightarrow> Inl err
           | Inr y \<Rightarrow>
               Inr ([(PInt 0, PInt 0),
                     (PInt (int (width img)), PInt 0),
                     (py_add (PInt (int (width img))) (PFloat x), y),
                     (py_neg (py_add (PFloat x) (PInt 1)), y)],
                    second_list img)))"

subsection \<open>Halves and sprites\<close>

definition get_top_half :: "image \<Rightarrow> image" where
  "get_top_half img = crop img (0, 0, int (width img), int (height img) div 2)"

definition get_bottom_half :: "image \<Rightarrow> image" where
  "get_bottom_half img =
     crop img (0, int (height img) div 2, int (width img), int (height img))"

text \<open>
  \<^verbatim>\<open>make_sprite\<close> draws on \<open>inner_img\<close> and returns it. (It also creates a second image
  and pastes \<open>inner_img\<close> onto it, which has no effect on what is returned.)
\<close>

definition make_sprite :: "env \<Rightarrow> string \<Rightarrow> int \<Rightarrow> string \<Rightarrow> py_error + image" where
  "make_sprite e character font_size font =
     (let border_rect_size = (TILE_WIDTH - PADDING_SIZE, TILE_HEIGHT - PADDING_SIZE);
          inner_image_size = (TILE_WIDTH, TILE_HEIGHT);
          border_shape = ((PADDING_SIZE, PADDING_SIZE), border_rect_size)
      in case truetype e font font_size of
           Inl err \<Rightarrow> Inl err
         | Inr fnt \<Rightarrow>
             (case image_new inner_image_size BACKGROUND_COLOR of
                Inl err \<Rightarrow> Inl err
              | Inr inner_img \<Rightarrow>
                  (let drawn = Rectangle (pixels inner_img) border_shape TILE_COLOR TILE_COLOR;
                       (w, h) = textsize e character fnt;
                       written = Text drawn
                         ((fst inner_image_size - w) div 2 - 1,
                          (snd inner_image_size - h) div 2 - 1)
                         character FONT_COLOR fnt
                   in Inr (Image (width inner_img) (height inner_img) written))))"

subsection \<open>make_angles_sprite_set\<close>

definition coeffs_inputs :: "image \<Rightarrow> bool \<Rightarrow> int \<Rightarrow> py_error + point list \<times> point list" where
  "coeffs_inputs img bottom_skew angle =
     (if bottom_skew then find_bottom_half_coeffs_inputs_for_angle img angle
      else find_top_half_coeffs_inputs_for_angle img angle)"

fun angles_loop ::
  "env \<Rightarrow> image \<Rightarrow> bool \<Rightarrow> int list \<Rightarrow> image list \<Rightarrow> py_error + image list" where
  "angles_loop e img bottom_skew [] angled_sprites = Inr angled_sprites"
| "angles_loop e img bottom_skew (angle # rest) angled_sprites =
     (case coeffs_inputs img bottom_skew (angle + 1) of
        Inl err \<Rightarrow> Inl err
      | Inr (pa, pb) \<Rightarrow>
          (case find_coeffs e pa pb of
             Inl err \<Rightarrow> Inl err
           | Inr coeffs \<Rightarrow>
               angles_loop e img bottom_skew rest
                 (angled_sprites @ [transform img (width img, height img) coeffs])))"

definition make_angles_sprite_set ::
  "env \<Rightarrow> image \<Rightarrow> int \<Rightarrow> bool \<Rightarrow> py_error + image list" where
  "make_angles_sprite_set e img count bottom_skew =
     (if count = 0 then Inl ZeroDivisionError
      else case py_range 0 91 (90 div count + 1) of
             Inl err \<Rightarrow> Inl err
           | Inr angles \<Rightarrow> angles_loop e img bottom_skew angles [])"

text \<open>The solve of one frame succeeds.\<close>

definition frame_solves :: "env \<Rightarrow> image \<Rightarrow> bool \<Rightarrow> int \<Rightarrow> bool" where
  "frame_solves e img bottom_skew angle =
     (case coeffs_inputs img bottom_skew angle of
        Inl err \<Rightarrow> False
      | Inr (pa, pb) \<Rightarrow> (case find_coeffs e pa pb of Inl err \<Rightarrow> False | Inr coeffs \<Rightarrow> True))"

subsection \<open>pack_images_to_sheet\<close>

text \<open>
  The number of rows is \<^verbatim>\<open>math.ceil(len(images) / width)\<close>, the ceiling of a float. The
  sheet is sized from the first tile; the loop pastes tile \<open>i\<close> at
  \<^verbatim>\<open>((i % width) * TILE_WIDTH, (i // width) * image.height)\<close>. The two \<^verbatim>\<open>print\<close> calls
  are left out.
\<close>

fun paste_loop :: "int \<Rightarrow> nat \<Rightarrow> image list \<Rightarrow> image \<Rightarrow> image" where
  "paste_loop w i [] sheet = sheet"
| "paste_loop w i (img # rest) sheet =
     paste_loop w (Suc i) rest
       (paste sheet img ((int i mod w) * TILE_WIDTH, (int i div w) * int (height img)))"

definition pack_images_to_sheet :: "image list \<Rightarrow> int \<Rightarrow> py_error + image" where
  "pack_images_to_sheet images w =
     (case py_truediv (int (length images)) w of
        Inl err \<Rightarrow> Inl err
      | Inr q \<Rightarrow>
          (let row_count = \<lceil>q\<rceil>
           in case images of
                [] \<Rightarrow> Inl IndexError
              | first # others \<Rightarrow>
                  (case image_new (int (width first) * w, int (height first) * row_count)
                          TRANSPARENCY_COLOR of
                     Inl err \<Rightarrow> Inl err
                   | Inr sheet \<Rightarrow> Inr (paste_loop w 0 images sheet))))"

subsection \<open>make_animations_sheets\<close>

definition digit_str :: "nat \<Rightarrow> string" where
  "digit_str i = [''0123456789'' ! i]"

fun digits_loop ::
  "env \<Rightarrow> int \<Rightarrow> string \<Rightarrow> nat list \<Rightarrow> image list \<times> image list \<Rightarrow>
   py_error + image list \<times> image list" where
  "digits_loop e font_size font [] sprites = Inr sprites"
| "digits_loop e font_size font (i # rest) (bottom_sprites, top_sprites) =
     (case make_sprite e (digit_str i) font_size font of
        Inl err \<Rightarrow> Inl err
      | Inr img \<Rightarrow>
          (let top_half = get_top_half img;
               bottom_half = get_bottom_half img
           in case make_angles_sprite_set e bottom_half 10 True of
                Inl err \<Rightarrow> Inl err
              | Inr bottom_angled_sprites \<Rightarrow>
                  (case make_angles_sprite_set e top_half 10 False of
                     Inl err \<Rightarrow> Inl err
                   | Inr top_angled_sprites \<Rightarrow>
                       digits_loop e font_size font rest
                         (bottom_sprites @ bottom_angled_sprites,
                          top_sprites @ top_angled_sprites))))"

text \<open>
  The two sheets are saved as files; the result is the list of files written, or the
  error that stopped the run.
\<close>

definition make_animations_sheets ::
  "env \<Rightarrow> int \<Rightarrow> string \<Rightarrow> py_error + (string \<times> image) list" where
  "make_animations_sheets e font_size font =
     (case digits_loop e font_size font [0 ..< 10] ([], []) of
        Inl err \<Rightarrow> Inl err
      | Inr (bottom_sprites, top_sprites) \<Rightarrow>
          (case pack_images_to_sheet bottom_sprites 10 of
             Inl err \<Rightarrow> Inl err
           | Inr bottom_sheet \<Rightarrow>
               (case pack_images_to_sheet top_sprites 10 of
                  Inl err \<Rightarrow> Inl err
                | Inr top_sheet \<Rightarrow>
                    Inr [(''bottom_animation_sheet.bmp'', convert bottom_sheet),
                         (''top_animation_sheet.bmp'', convert top_sheet)])))"

subsection \<open>Geometry of a quadrilateral\<close>

text \<open>
  Twice the signed area of the triangle \<open>p q r\<close>; it is zero exactly when the three points
  are collinear.
\<close>

definition cross :: "point \<Rightarrow> point \<Rightarrow> point \<Rightarrow> rat" where
  "cross p q r =
     (val (fst q) - val (fst p)) * (val (snd r) - val (snd p))
     - (val (snd q) - val (snd p)) * (val (fst r) - val (fst p))"

text \<open>Twice the signed area of a polygon (shoelace formula).\<close>

fun shoelace :: "point \<Rightarrow> point list \<Rightarrow> rat" where
  "shoelace p0 [] = 0"
| "shoelace p0 [p] = val (fst p) * val (snd p0) - val (fst p0) * val (snd p)"
| "shoelace p0 (p # q # ps) =
     val (fst p) * val (snd q) - val (fst q) * val (snd p) + shoelace p0 (q # ps)"

definition area2 :: "point list \<Rightarrow> rat" where
  "area2 ps = (case ps of [] \<Rightarrow> 0 | p # _ \<Rightarrow> \<bar>shoelace p ps\<bar>)"

fun pairs :: "'a list \<Rightarrow> ('a \<times> 'a) list" where
  "pairs [] = []"
| "pairs (x # xs) = map (Pair x) xs @ pairs xs"

fun no_three_collinear :: "point list \<Rightarrow> bool" where
  "no_three_collinear [] = True"
| "no_three_collinear (p # ps) =
     (list_all (\<lambda>(q, r). cross p q r \<noteq> 0) (pairs ps) \<and> no_three_collinear ps)"

subsection \<open>Checking a rounding with integers\<close>

text \<open>
  Rounding a quotient of integers to a multiple of \<open>2\<^sup>-\<^sup>k\<close>, computed on integers:
  \<open>div_even\<close> is the division that rounds to nearest, ties to even; \<open>scale_of n d\<close> is
  the \<open>k\<close> for which \<open>n / d\<close> scaled by \<open>2\<^sup>k\<close> has 53 bits; \<open>rounds_to n d m k\<close> says
  that \<open>n / d\<close> rounds to \<open>m / 2\<^sup>k\<close>. \<open>x_sum_check a\<close> says, on integers, that the sum of
  the two x displacements at angle \<open>a\<close> rounds to 8.
\<close>

definition div_even :: "int \<Rightarrow> int \<Rightarrow> int" where
  "div_even n d =
     (let f = n div d; r = n mod d
      in if 2 * r < d then f else if d < 2 * r then f + 1
         else if even f then f else f + 1)"

definition scale_of :: "int \<Rightarrow> int \<Rightarrow> nat" where
  "scale_of n d =
     (let k = nat (52 - (bitlen n - bitlen d))
      in if 2 ^ 52 * d \<le> n * 2 ^ k then k else k + 1)"

definition rounds_to :: "int \<Rightarrow> int \<Rightarrow> int \<Rightarrow> nat \<Rightarrow> bool" where
  "rounds_to n d m k \<longleftrightarrow>
     0 < n \<and> 0 < d \<and> k \<le> 1074 \<and> 2 ^ 52 * d \<le> n * 2 ^ k \<and> n * 2 ^ k < 2 ^ 53 * d
     \<and> div_even (n * 2 ^ k) d = m"

definition x_sum_check :: "int \<Rightarrow> bool" where
  "x_sum_check a =
     (let n1 = a * 8; k1 = scale_of n1 90; m1 = div_even (n1 * 2 ^ k1) 90;
          n2 = (90 - a) * 8; k2 = scale_of n2 90; m2 = div_even (n2 * 2 ^ k2) 90;
          n3 = m1 * 2 ^ k2 + m2 * 2 ^ k1; d3 = 2 ^ (k1 + k2); k3 = scale_of n3 d3
      in rounds_to n1 90 m1 k1 \<and> rounds_to n2 90 m2 k2 \<and> rounds_to n3 d3 (8 * 2 ^ k3) k3)"

text \<open>An environment whose library calls all succeed, for running the generator.\<close>

definition test_env :: env where
  "test_env =
     \<lparr>truetype = (\<lambda>name sz. Inr (name, sz)),
      textsize = (\<lambda>s fnt. (20, 40)),
      linalg = (\<lambda>A B. Inr (replicate 8 0))\<rparr>"

section \<open>Rounding to binary64\<close>

text \<open>
  Rounding is monotone, odd, and exact on the integers up to \<open>2\<^sup>5\<^sup>3\<close>.
\<close>

lemma round_even_of_int: "round_even (of_int n) = n"
  by (simp add: round_even_def)

lemma round_even_bounds: "\<lfloor>q\<rfloor> \<le> round_even q \<and> round_even q \<le> \<lfloor>q\<rfloor> + 1"
  by (simp add: round_even_def Let_def)

lemma round_even_mono:
  assumes "x \<le> y"
  shows "round_even x \<le> round_even y"
proof (cases "\<lfloor>x\<rfloor> = \<lfloor>y\<rfloor>")
  case True
  with assms show ?thesis
    by (auto simp: round_even_def Let_def)
next
  case False
  with assms have "\<lfloor>x\<rfloor> < \<lfloor>y\<rfloor>"
    using floor_mono [OF assms] by linarith
  then show ?thesis
    using round_even_bounds [of x] round_even_bounds [of y] by linarith
qed

lemma binade_raw:
  assumes "0 < q" and "quotient_of q = (n, d)"
  shows "2 powi (bitlen n - bitlen d - 1) < q \<and> q < 2 powi (bitlen n - bitlen d + 1)"
proof -
  have d: "0 < d" using assms(2) quotient_of_denom_pos by blast
  have q: "q = of_int n / of_int d" using assms(2) quotient_of_div by blast
  with assms(1) d have n: "0 < n"
    by (simp add: zero_less_divide_iff)
  have bn: "2 ^ nat (bitlen n - 1) \<le> n" "n < 2 ^ nat (bitlen n)"
    using bitlen_bounds [OF n] by auto
  have bd: "2 ^ nat (bitlen d - 1) \<le> d" "d < 2 ^ nat (bitlen d)"
    using bitlen_bounds [OF d] by auto
  have pn: "1 \<le> bitlen n" using n by (simp add: bitlen_alt_def)
  have pd: "1 \<le> bitlen d" using d by (simp add: bitlen_alt_def)
  have rn: "(2::rat) powi (bitlen n - 1) \<le> of_int n" "of_int n < (2::rat) powi (bitlen n)"
    using bn pn
    by (metis of_int_le_iff of_int_numeral of_int_power power_int_def diff_ge_0_iff_ge)
       (metis bitlen_nonneg bn(2) of_int_less_iff of_int_numeral of_int_power power_int_def)
  have rd: "(2::rat) powi (bitlen d - 1) \<le> of_int d" "of_int d < (2::rat) powi (bitlen d)"
    using bd pd
    by (metis of_int_le_iff of_int_numeral of_int_power power_int_def diff_ge_0_iff_ge)
       (metis bitlen_nonneg bd(2) of_int_less_iff of_int_numeral of_int_power power_int_def)
  have dpos: "(0::rat) < of_int d" using d by simp
  have "(2::rat) powi (bitlen n - bitlen d - 1) * of_int d
        < 2 powi (bitlen n - bitlen d - 1) * 2 powi (bitlen d)"
    using rd(2) by (simp add: mult_strict_left_mono)
  also have "\<dots> = 2 powi (bitlen n - 1)"
    by (simp add: power_int_add [symmetric])
  also have "\<dots> \<le> of_int n" by (rule rn(1))
  finally have lo: "2 powi (bitlen n - bitlen d - 1) < q"
    using dpos by (simp add: q pos_less_divide_eq)
  have "of_int n < (2::rat) powi (bitlen n)" by (rule rn(2))
  also have "\<dots> = 2 powi (bitlen n - bitlen d + 1) * 2 powi (bitlen d - 1)"
    by (simp add: power_int_add [symmetric])
  also have "\<dots> \<le> 2 powi (bitlen n - bitlen d + 1) * of_int d"
    using rd(1) by (simp add: mult_left_mono)
  finally have hi: "q < 2 powi (bitlen n - bitlen d + 1)"
    using dpos by (simp add: q pos_divide_less_eq)
  from lo hi show ?thesis by simp
qed

lemma binade_bounds:
  assumes "0 < q"
  shows "- 1022 \<le> binade q" and "q < 2 powi (binade q + 1)"
    and "- 1022 < binade q \<Longrightarrow> 2 powi binade q \<le> q"
proof -
  obtain n d where nd: "quotient_of q = (n, d)" by (cases "quotient_of q")
  define t where "t = bitlen n - bitlen d"
  have raw: "2 powi (t - 1) < q" "q < 2 powi (t + 1)"
    using binade_raw [OF assms nd] by (simp_all add: t_def)
  define e0 where "e0 = (if 2 powi t \<le> q then t else t - 1)"
  have e0: "2 powi e0 \<le> q" "q < 2 powi (e0 + 1)"
    using raw by (auto simp: e0_def)
  have b: "binade q = max e0 (- 1022)"
    by (simp add: binade_def nd t_def e0_def)
  show "- 1022 \<le> binade q" by (simp add: b)
  have "(2::rat) powi (e0 + 1) \<le> 2 powi (max e0 (- 1022) + 1)"
    by (rule power_int_increasing) simp_all
  with e0(2) show "q < 2 powi (binade q + 1)" by (simp add: b)
  show "2 powi binade q \<le> q" if "- 1022 < binade q"
    using that e0(1) by (simp add: b max_def split: if_splits)
qed

lemma binade_mono:
  assumes "0 < x" "x \<le> y"
  shows "binade x \<le> binade y"
proof (rule ccontr)
  assume "\<not> binade x \<le> binade y"
  then have lt: "binade y + 1 \<le> binade x" by simp
  have "- 1022 \<le> binade y" using assms by (intro binade_bounds) simp
  with lt have "- 1022 < binade x" by simp
  then have "2 powi binade x \<le> x" using assms(1) by (rule binade_bounds(3) [rotated])
  moreover have "y < 2 powi (binade y + 1)" using assms by (intro binade_bounds) simp
  moreover have "(2::rat) powi (binade y + 1) \<le> 2 powi binade x"
    using lt by (intro power_int_increasing) simp_all
  ultimately show False using assms(2) by linarith
qed


lemma to_double_nonneg: "0 \<le> q \<Longrightarrow> 0 \<le> to_double q"
proof -
  assume q: "0 \<le> q"
  have "0 \<le> round_even (\<bar>q\<bar> / 2 powi (binade \<bar>q\<bar> - 52))"
    using round_even_mono [of 0 "\<bar>q\<bar> / 2 powi (binade \<bar>q\<bar> - 52)"]
    by (simp add: round_even_def)
  then show ?thesis using q
    by (simp add: to_double_def Let_def sgn_if)
qed

lemma to_double_minus: "to_double (- q) = - to_double q"
  by (simp add: to_double_def Let_def sgn_if)

lemma to_double_pos_eq:
  assumes "0 < q"
  shows "to_double q = of_int (round_even (q / 2 powi (binade q - 52))) * 2 powi (binade q - 52)"
  using assms by (simp add: to_double_def Let_def)

lemma to_double_upper:
  assumes "0 < q"
  shows "to_double q \<le> 2 powi (binade q + 1)"
proof -
  define u :: rat where "u = 2 powi (binade q - 52)"
  have u: "0 < u" by (simp add: u_def)
  have "(2::rat) powi (binade q - 52 + 53) = 2 powi (binade q - 52) * 2 powi 53"
    by (rule power_int_add) simp
  then have p53: "(2::rat) powi (binade q + 1) = 2 ^ 53 * u"
    by (simp add: u_def ac_simps)
  have "q < 2 powi (binade q + 1)" using assms by (rule binade_bounds)
  also have "(2::rat) powi (binade q + 1) = 2 ^ 53 * u"
    by (rule p53)
  finally have "q / u \<le> of_int (2 ^ 53)" using u by (simp add: pos_divide_le_eq)
  then have "round_even (q / u) \<le> 2 ^ 53"
    using round_even_mono [of "q / u" "of_int (2 ^ 53)"] round_even_of_int [of "2 ^ 53"]
    by simp
  then have "(of_int (round_even (q / u)) :: rat) \<le> 2 ^ 53"
    by (metis of_int_le_iff of_int_numeral of_int_power)
  then have "of_int (round_even (q / u)) * u \<le> 2 ^ 53 * u"
    using u by (simp add: mult_right_mono)
  also have "2 ^ 53 * u = 2 powi (binade q + 1)"
    by (rule p53 [symmetric])
  finally show ?thesis using assms by (simp add: to_double_pos_eq u_def)
qed

lemma to_double_lower:
  assumes "0 < q" "- 1022 < binade q"
  shows "2 powi binade q \<le> to_double q"
proof -
  define u :: rat where "u = 2 powi (binade q - 52)"
  have u: "0 < u" by (simp add: u_def)
  have "(2::rat) powi (binade q - 52 + 52) = 2 powi (binade q - 52) * 2 powi 52"
    by (rule power_int_add) simp
  then have eq: "(2::rat) powi binade q = 2 ^ 52 * u"
    by (simp add: u_def ac_simps)
  have "2 powi binade q \<le> q" using assms by (rule binade_bounds)
  then have "of_int (2 ^ 52) \<le> q / u" using u by (simp add: eq pos_le_divide_eq)
  then have "2 ^ 52 \<le> round_even (q / u)"
    using round_even_mono [of "of_int (2 ^ 52)" "q / u"] round_even_of_int [of "2 ^ 52"]
    by simp
  then have "(2 ^ 52 :: rat) \<le> of_int (round_even (q / u))"
    by (metis of_int_le_iff of_int_numeral of_int_power)
  then have "2 ^ 52 * u \<le> of_int (round_even (q / u)) * u"
    using u by (simp add: mult_right_mono)
  then show ?thesis using assms by (simp add: to_double_pos_eq u_def eq)
qed

lemma to_double_mono_pos:
  assumes "0 < x" "x \<le> y"
  shows "to_double x \<le> to_double y"
proof -
  have y: "0 < y" using assms by simp
  have le: "binade x \<le> binade y" using assms by (rule binade_mono)
  show ?thesis
  proof (cases "binade x = binade y")
    case True
    define u :: rat where "u = 2 powi (binade y - 52)"
    have u: "0 < u" by (simp add: u_def)
    have "x / u \<le> y / u" using assms u by (simp add: divide_right_mono)
    then have "round_even (x / u) \<le> round_even (y / u)" by (rule round_even_mono)
    then have "of_int (round_even (x / u)) * u \<le> of_int (round_even (y / u)) * u"
      using u by (simp add: mult_right_mono)
    then show ?thesis using assms y by (simp add: to_double_pos_eq True u_def)
  next
    case False
    with le have lt: "binade x + 1 \<le> binade y" by simp
    have "- 1022 \<le> binade x" using assms(1) by (rule binade_bounds)
    with lt have n: "- 1022 < binade y" by simp
    have "to_double x \<le> 2 powi (binade x + 1)" using assms(1) by (rule to_double_upper)
    also have "\<dots> \<le> 2 powi binade y" using lt by (intro power_int_increasing) simp_all
    also have "\<dots> \<le> to_double y" using y n by (rule to_double_lower)
    finally show ?thesis .
  qed
qed

lemma to_double_mono:
  assumes "x \<le> y"
  shows "to_double x \<le> to_double y"
proof -
  consider "0 < x" | "x \<le> 0" "0 \<le> y" | "y < 0" by linarith
  then show ?thesis
  proof cases
    case 1
    then show ?thesis using assms by (rule to_double_mono_pos)
  next
    case 2
    have "to_double x \<le> 0"
      using to_double_nonneg [of "- x"] 2(1) by (simp add: to_double_minus)
    moreover have "0 \<le> to_double y" using 2(2) by (rule to_double_nonneg)
    ultimately show ?thesis by simp
  next
    case 3
    have "to_double (- y) \<le> to_double (- x)"
      using 3 assms by (intro to_double_mono_pos) simp_all
    then show ?thesis by (simp add: to_double_minus)
  qed
qed

lemma to_double_of_int:
  assumes "\<bar>n\<bar> \<le> 2 ^ 53"
  shows "to_double (of_int n) = of_int n"
proof -
  have pos: "to_double (of_int m) = of_int m" if m: "0 < m" "m \<le> 2 ^ 53" for m :: int
  proof -
    define q :: rat where "q = of_int m"
    have q: "0 < q" using m by (simp add: q_def)
    have "binade q \<le> 53"
    proof (rule ccontr)
      assume "\<not> binade q \<le> 53"
      then have b: "54 \<le> binade q" by simp
      then have "2 powi binade q \<le> q" using q by (intro binade_bounds) simp_all
      moreover have "(2::rat) powi 54 \<le> 2 powi binade q"
        using b by (intro power_int_increasing) simp_all
      moreover have "q \<le> 2 ^ 53"
        unfolding q_def using m(2) by (metis of_int_le_iff of_int_numeral of_int_power)
      ultimately show False by simp
    qed
    show ?thesis
    proof (cases "binade q \<le> 52")
      case True
      define k where "k = nat (52 - binade q)"
      have k: "(2::rat) powi (binade q - 52) = 1 / 2 ^ k"
        using True by (simp add: k_def power_int_def field_simps)
      have "q / 2 powi (binade q - 52) = of_int (m * 2 ^ k)"
        by (simp add: k) (simp add: q_def)
      then have "round_even (q / 2 powi (binade q - 52)) = m * 2 ^ k"
        by (simp only: round_even_of_int)
      then have "to_double q = of_int (m * 2 ^ k) * (1 / 2 ^ k)"
        using q by (simp only: to_double_pos_eq k)
      then show ?thesis by (simp add: q_def)
    next
      case False
      with \<open>binade q \<le> 53\<close> have b: "binade q = 53" by simp
      then have "2 powi binade q \<le> q" using q by (intro binade_bounds) simp_all
      moreover have "q \<le> 2 ^ 53"
        unfolding q_def using m(2) by (metis of_int_le_iff of_int_numeral of_int_power)
      ultimately have "q = 2 ^ 53" by (simp add: b)
      then have "m = 2 ^ 53"
        unfolding q_def by (metis of_int_eq_iff of_int_numeral of_int_power)
      have "to_double q = of_int (round_even (q / 2 powi (binade q - 52))) * 2 powi (binade q - 52)"
        using q by (rule to_double_pos_eq)
      also have "\<dots> = of_int (round_even (of_int (2 ^ 52))) * 2"
        by (simp add: b) (simp add: \<open>q = 2 ^ 53\<close>)
      also have "\<dots> = 2 ^ 53"
        by (simp only: round_even_of_int) simp
      finally show ?thesis by (simp add: q_def [symmetric] \<open>q = 2 ^ 53\<close>)
    qed
  qed
  consider "n = 0" | "0 < n" | "n < 0" by linarith
  then show ?thesis
  proof cases
    case 1
    then show ?thesis by (simp add: to_double_def)
  next
    case 2
    then show ?thesis using assms by (intro pos) simp_all
  next
    case 3
    then have "to_double (of_int (- n)) = of_int (- n)" using assms by (intro pos) simp_all
    then show ?thesis by (simp add: to_double_minus)
  qed
qed

lemma to_double_2_63: "to_double (2 ^ 63) = 2 ^ 63"
  by code_simp

lemma to_double_abs: "\<bar>to_double q\<bar> = to_double \<bar>q\<bar>"
proof (cases "0 \<le> q")
  case True
  then show ?thesis using to_double_nonneg [of q] by simp
next
  case False
  then have "0 \<le> to_double (- q)" by (intro to_double_nonneg) simp
  with False show ?thesis by (simp add: to_double_minus)
qed

lemma py_truediv_small:
  assumes "b \<noteq> 0" and "\<bar>a\<bar> \<le> 2 ^ 63 * \<bar>b\<bar>"
  shows "py_truediv a b = Inr (to_double (of_int a / of_int b))"
proof -
  define r where "r = to_double (of_int a / of_int b)"
  have "(of_int \<bar>a\<bar> :: rat) \<le> of_int (2 ^ 63 * \<bar>b\<bar>)"
    using assms(2) by (simp only: of_int_le_iff)
  then have "\<bar>of_int a / of_int b :: rat\<bar> \<le> 2 ^ 63"
    using assms(1) by (simp add: divide_le_eq)
  then have "to_double \<bar>of_int a / of_int b\<bar> \<le> to_double (2 ^ 63)"
    by (rule to_double_mono)
  then have "\<bar>r\<bar> \<le> 2 ^ 63"
    by (simp only: to_double_2_63 to_double_abs r_def)
  also have "(2::rat) ^ 63 < 2 ^ 1024" by (rule power_strict_increasing) simp_all
  finally have "\<not> 2 ^ 1024 \<le> \<bar>r\<bar>" by simp
  then show ?thesis
    using assms(1) by (simp add: py_truediv_def r_def Let_def)
qed

lemma truediv_11_3: "py_truediv 11 3 = Inr (8256599316845909 / 2251799813685248)"
proof -
  have "to_double (11 / 3) = 8256599316845909 / 2251799813685248" by code_simp
  then show ?thesis using py_truediv_small [of 3 11] by simp
qed

lemma truediv_2_2: "py_truediv 2 2 = Inr 1"
proof -
  have "to_double 1 = 1" by code_simp
  then show ?thesis using py_truediv_small [of 2 2] by simp
qed

lemma truediv_100_10: "py_truediv 100 10 = Inr 10"
proof -
  have "to_double 10 = 10" by code_simp
  then show ?thesis using py_truediv_small [of 10 100] by simp
qed

lemma py_truediv_nonneg:
  assumes "0 \<le> a" "1 \<le> b" "a < 2 ^ 63"
  shows "\<exists>q. py_truediv a b = Inr q \<and> 0 \<le> q"
proof -
  have "\<bar>a\<bar> \<le> 2 ^ 63 * 1" using assms by simp
  also have "\<dots> \<le> 2 ^ 63 * \<bar>b\<bar>" using assms(2) by (intro mult_left_mono) simp_all
  finally have "py_truediv a b = Inr (to_double (of_int a / of_int b))"
    using assms(2) by (intro py_truediv_small) simp_all
  moreover have "0 \<le> to_double (of_int a / of_int b)"
    using assms by (intro to_double_nonneg) simp
  ultimately show ?thesis by blast
qed

lemma width_paste_loop: "width (paste_loop w i imgs sheet) = width sheet"
  by (induction imgs arbitrary: i sheet) (simp_all add: paste_def)

lemma height_paste_loop: "height (paste_loop w i imgs sheet) = height sheet"
  by (induction imgs arbitrary: i sheet) (simp_all add: paste_def)

lemma placements_paste_loop:
  "placements (pixels (paste_loop w i imgs sheet)) =
     placements (pixels sheet) @
     map (\<lambda>(k, img). (img, (int k mod w * TILE_WIDTH, int k div w * int (height img))))
       (enumerate i imgs)"
  by (induction imgs arbitrary: i sheet) (simp_all add: paste_def)

lemma pack_images_to_sheet_Inr:
  assumes "py_truediv (int (length images)) w = Inr q"
    and "images = first # others"
    and "0 \<le> w" "0 \<le> q"
  shows "pack_images_to_sheet images w =
           Inr (paste_loop w 0 images
                  (Image (nat (int (width first) * w)) (nat (int (height first) * \<lceil>q\<rceil>))
                     (Fill TRANSPARENCY_COLOR)))"
proof -
  have "0 \<le> \<lceil>q\<rceil>" using assms(4) by (simp add: le_ceiling_iff)
  then have "0 \<le> int (height first) * \<lceil>q\<rceil>" by simp
  moreover have "0 \<le> int (width first) * w" using assms(3) by simp
  ultimately show ?thesis
    using assms(1) unfolding assms(2)
    by (simp add: pack_images_to_sheet_def image_new_def Let_def not_less)
qed

lemma pack_eleven:
  assumes "length images = 11"
    and "\<forall>t \<in> set images. width t = 48 \<and> height t = 100"
  shows "\<exists>sheet. pack_images_to_sheet images 3 = Inr sheet
           \<and> width sheet = 144 \<and> height sheet = 400
           \<and> placements (pixels sheet) ! 10 = (images ! 10, (48, 300))"
    and "\<exists>q. py_truediv (int (length images)) 3 = Inr q \<and> \<lceil>q\<rceil> = 4"
proof -
  obtain first others where fo: "images = first # others"
    using assms(1) by (cases images) simp_all
  have dims: "width first = 48" "height first = 100" "height (images ! 10) = 100"
    using assms by (simp_all add: fo)
  have td: "py_truediv (int (length images)) 3 = Inr (8256599316845909 / 2251799813685248)"
    by (simp add: assms(1) truediv_11_3)
  have c: "\<lceil>8256599316845909 / 2251799813685248 :: rat\<rceil> = 4"
    by (simp add: ceiling_eq_iff)
  have "pack_images_to_sheet images 3 =
          Inr (paste_loop 3 0 images (Image 144 400 (Fill TRANSPARENCY_COLOR)))"
    using pack_images_to_sheet_Inr [OF td fo] by (simp add: dims c)
  moreover have "placements (pixels (paste_loop 3 0 images (Image 144 400 (Fill TRANSPARENCY_COLOR)))) ! 10
      = (images ! 10, (48, 300))"
    by (simp add: placements_paste_loop assms(1) nth_enumerate_eq dims TILE_WIDTH_def)
  ultimately show "\<exists>sheet. pack_images_to_sheet images 3 = Inr sheet
           \<and> width sheet = 144 \<and> height sheet = 400
           \<and> placements (pixels sheet) ! 10 = (images ! 10, (48, 300))"
    by (simp add: width_paste_loop height_paste_loop)
  show "\<exists>q. py_truediv (int (length images)) 3 = Inr q \<and> \<lceil>q\<rceil> = 4"
    using td c by blast
qed

section \<open>The sheet packer\<close>

text \<open>
  C5, as amended. Eleven tiles of 48 by 100 pixels packed three to a row give a sheet of
  144 by 400 pixels (four rows), and the tile at index 10 is pasted at offset (48, 300):
  it is the second tile of the fourth row, and \<open>10 mod 3 = 1\<close>.
\<close>

theorem pack_eleven_tiles_offset:
  assumes "length images = 11"
    and "\<forall>t \<in> set images. width t = 48 \<and> height t = 100"
  shows "(\<exists>q. py_truediv (int (length images)) 3 = Inr q \<and> \<lceil>q\<rceil> = 4)
       \<and> (\<exists>sheet. pack_images_to_sheet images 3 = Inr sheet
             \<and> width sheet = 144 \<and> height sheet = 400
             \<and> placements (pixels sheet) ! 10 = (images ! 10, (48, 300)))"
  using pack_eleven [OF assms] by blast

theorem pack_eleven_tiles_offset_witness:
  "length (replicate 11 (Image 48 100 (Fill TRANSPARENCY_COLOR))) = 11
   \<and> list_all (\<lambda>t. width t = 48 \<and> height t = 100)
         (replicate 11 (Image 48 100 (Fill TRANSPARENCY_COLOR)))
   \<and> (\<exists>sheet. pack_images_to_sheet (replicate 11 (Image 48 100 (Fill TRANSPARENCY_COLOR))) 3
                = Inr sheet
         \<and> width sheet = 144 \<and> height sheet = 400
         \<and> placements (pixels sheet) ! 10 = (Image 48 100 (Fill TRANSPARENCY_COLOR), (48, 300)))"
  using pack_eleven_tiles_offset [of "replicate 11 (Image 48 100 (Fill TRANSPARENCY_COLOR))"]
  by (simp add: list_all_iff)

text \<open>The tile does not get the offset (288, 300), which lies outside the sheet.\<close>

theorem pack_eleven_tiles_counterexample:
  "\<not> (\<exists>sheet. pack_images_to_sheet (replicate 11 (Image 48 100 (Fill TRANSPARENCY_COLOR))) 3
                = Inr sheet
         \<and> width sheet = 144 \<and> height sheet = 400
         \<and> snd (placements (pixels sheet) ! 10) = (288, 300))"
  using pack_eleven(1) [of "replicate 11 (Image 48 100 (Fill TRANSPARENCY_COLOR))"]
  by auto

text \<open>
  C6. The sheet is sized from the width of the tiles, the horizontal offsets are multiples
  of the constant \<open>TILE_WIDTH\<close>: two tiles of 10 by 10 pixels packed two to a row give a
  sheet of 20 by 10 pixels, and the second tile is pasted at (48, 0), not at (10, 0).
\<close>

theorem pack_two_small_tiles:
  "\<exists>sheet. pack_images_to_sheet
      [Image 10 10 (Fill TRANSPARENCY_COLOR), Image 10 10 (Fill TRANSPARENCY_COLOR)] 2 = Inr sheet
     \<and> width sheet = 20 \<and> height sheet = 10
     \<and> map snd (placements (pixels sheet)) = [(0, 0), (48, 0)]"
  by (simp add: pack_images_to_sheet_def truediv_2_2 image_new_def paste_def TILE_WIDTH_def)

text \<open>
  C10. For a column count of at least 1, packing the empty list fails with
  \<^verbatim>\<open>IndexError\<close> (at \<^verbatim>\<open>images[0]\<close>, before any image is made), and packing a list that
  is not empty returns a sheet. (A Python list has fewer than \<open>2\<^sup>6\<^sup>3\<close> elements.)
\<close>

theorem pack_images_to_sheet_nonempty:
  assumes "1 \<le> w" and "length images < 2 ^ 63"
  shows "(images = [] \<longrightarrow> pack_images_to_sheet images w = Inl IndexError)
       \<and> (images \<noteq> [] \<longrightarrow> (\<exists>sheet. pack_images_to_sheet images w = Inr sheet))"
proof -
  have "int (length images) < 2 ^ 63"
    using assms(2) by (metis of_nat_less_iff of_nat_numeral of_nat_power)
  then obtain q where q: "py_truediv (int (length images)) w = Inr q" "0 \<le> q"
    using py_truediv_nonneg [of "int (length images)" w] assms(1) by auto
  show ?thesis
  proof (cases images)
    case Nil
    then show ?thesis using q by (simp add: pack_images_to_sheet_def)
  next
    case (Cons first others)
    then show ?thesis
      using pack_images_to_sheet_Inr [OF q(1) Cons] assms(1) q(2) by simp
  qed
qed

theorem pack_images_to_sheet_nonempty_witness:
  "(1::int) \<le> 3
   \<and> length ([] :: image list) < 2 ^ 63
   \<and> length [Image 48 50 (Fill TRANSPARENCY_COLOR)] < 2 ^ 63
   \<and> pack_images_to_sheet [] 3 = Inl IndexError
   \<and> (\<exists>sheet. pack_images_to_sheet [Image 48 50 (Fill TRANSPARENCY_COLOR)] 3 = Inr sheet)"
  using pack_images_to_sheet_nonempty [of 3 "[]"]
    pack_images_to_sheet_nonempty [of 3 "[Image 48 50 (Fill TRANSPARENCY_COLOR)]"]
  by simp

section \<open>The frame generator\<close>

lemma py_range_0_91:
  assumes "1 \<le> step"
  shows "py_range 0 91 step = Inr (map (\<lambda>k. int k * step) [0 ..< nat (90 div step + 1)])"
proof -
  have "(91 - 0 + step - 1) div step = 90 div step + 1"
    using assms by (simp add: div_add_self2)
  then show ?thesis using assms by (simp add: py_range_def)
qed

lemma frame_solvesD:
  assumes "frame_solves e img bottom_skew a"
  shows "\<exists>pa pb coeffs. coeffs_inputs img bottom_skew a = Inr (pa, pb)
           \<and> find_coeffs e pa pb = Inr coeffs"
proof (cases "coeffs_inputs img bottom_skew a")
  case (Inl err)
  with assms show ?thesis by (simp add: frame_solves_def)
next
  case (Inr pp)
  obtain pa pb where pp: "pp = (pa, pb)" by (cases pp)
  show ?thesis
  proof (cases "find_coeffs e pa pb")
    case (Inl err)
    with assms Inr pp show ?thesis by (simp add: frame_solves_def)
  next
    case (Inr coeffs)
    with \<open>coeffs_inputs img bottom_skew a = Inr pp\<close> pp show ?thesis by simp
  qed
qed

lemma angles_loop_solves:
  assumes "\<forall>a \<in> set angles. frame_solves e img bottom_skew (a + 1)"
  shows "\<exists>frames. angles_loop e img bottom_skew angles acc = Inr (acc @ frames)
           \<and> length frames = length angles
           \<and> (\<forall>f \<in> set frames. width f = width img \<and> height f = height img)"
  using assms
proof (induction angles arbitrary: acc)
  case Nil
  then show ?case by simp
next
  case (Cons a rest)
  from Cons.prems have "frame_solves e img bottom_skew (a + 1)" by simp
  then obtain pa pb coeffs where
    s: "coeffs_inputs img bottom_skew (a + 1) = Inr (pa, pb)" "find_coeffs e pa pb = Inr coeffs"
    using frame_solvesD by blast
  define f where "f = transform img (width img, height img) coeffs"
  from Cons.prems have "\<forall>a \<in> set rest. frame_solves e img bottom_skew (a + 1)" by simp
  from Cons.IH [OF this, of "acc @ [f]"] obtain frames where
    fr: "angles_loop e img bottom_skew rest (acc @ [f]) = Inr ((acc @ [f]) @ frames)"
      "length frames = length rest"
      "\<forall>g \<in> set frames. width g = width img \<and> height g = height img"
    by blast
  have "angles_loop e img bottom_skew (a # rest) acc = Inr (acc @ (f # frames))"
    using s fr(1) by (simp add: f_def)
  moreover have "width f = width img \<and> height f = height img"
    by (simp add: f_def transform_def)
  ultimately show ?case using fr(2,3)
    by (intro exI [of _ "f # frames"]) simp
qed

lemma make_angles_sprite_set_solves:
  assumes "1 \<le> count"
    and "py_range 0 91 (90 div count + 1) = Inr angles"
    and "\<forall>a \<in> set angles. frame_solves e img bottom_skew (a + 1)"
  shows "\<exists>frames. make_angles_sprite_set e img count bottom_skew = Inr frames
           \<and> int (length frames) = 90 div (90 div count + 1) + 1
           \<and> (\<forall>f \<in> set frames. width f = width img \<and> height f = height img)"
proof -
  have step: "1 \<le> 90 div count + 1"
    using assms(1) by (simp add: pos_imp_zdiv_nonneg_iff)
  have "angles = map (\<lambda>k. int k * (90 div count + 1)) [0 ..< nat (90 div (90 div count + 1) + 1)]"
    using assms(2) py_range_0_91 [OF step] by simp
  then have len: "int (length angles) = 90 div (90 div count + 1) + 1"
    using step by (simp add: pos_imp_zdiv_nonneg_iff)
  from angles_loop_solves [OF assms(3), of "[]"] obtain frames where
    fr: "angles_loop e img bottom_skew angles [] = Inr frames" "length frames = length angles"
      "\<forall>f \<in> set frames. width f = width img \<and> height f = height img"
    by auto
  have "make_angles_sprite_set e img count bottom_skew = Inr frames"
    using assms(1,2) fr(1) by (simp add: make_angles_sprite_set_def)
  then show ?thesis using fr(2,3) len by simp
qed

lemma top_x_val_small:
  assumes "\<bar>angle\<bar> \<le> 2 ^ 31"
  shows "top_x_val angle = Inr (to_double (of_int (angle * 8) / 90))"
proof -
  have "\<bar>angle * 8\<bar> \<le> 2 ^ 63 * \<bar>90 :: int\<bar>" using assms by simp
  then show ?thesis
    unfolding top_x_val_def PADDING_SIZE_def
    using py_truediv_small [of 90 "angle * 8"] by simp
qed

lemma bottom_x_val_small:
  assumes "\<bar>angle\<bar> \<le> 2 ^ 31"
  shows "bottom_x_val angle = Inr (to_double (of_int ((90 - angle) * 8) / 90))"
proof -
  have "\<bar>(90 - angle) * 8\<bar> \<le> 2 ^ 63 * \<bar>90 :: int\<bar>" using assms by simp
  then show ?thesis
    unfolding bottom_x_val_def PADDING_SIZE_def
    using py_truediv_small [of 90 "(90 - angle) * 8"] by simp
qed

lemma y_val_small:
  assumes "\<bar>angle\<bar> \<le> 2 ^ 31" and "height img < 2 ^ 31"
  shows "y_val img angle =
           Inr (py_min (PFloat (to_double (of_int (angle * int (height img)) / 90)))
                  (PInt (int (height img) - 1)))"
proof -
  have h: "int (height img) \<le> 2 ^ 31"
    using assms(2) by (metis less_imp_le of_nat_le_iff of_nat_numeral of_nat_power)
  have "\<bar>angle * int (height img)\<bar> = \<bar>angle\<bar> * int (height img)"
    by (simp add: abs_mult)
  also have "\<dots> \<le> 2 ^ 31 * 2 ^ 31"
    using assms(1) h by (intro mult_mono) simp_all
  also have "\<dots> \<le> 2 ^ 63 * \<bar>90 :: int\<bar>" by simp
  finally show ?thesis
    unfolding y_val_def
    using py_truediv_small [of 90 "angle * int (height img)"] by simp
qed

lemma coeffs_inputs_small:
  assumes "\<bar>angle\<bar> \<le> 2 ^ 31" and "height img < 2 ^ 31"
  shows "\<exists>pa. coeffs_inputs img bottom_skew angle = Inr (pa, second_list img)"
  using top_x_val_small [OF assms(1)] bottom_x_val_small [OF assms(1)] y_val_small [OF assms]
  by (simp add: coeffs_inputs_def find_top_half_coeffs_inputs_for_angle_def
      find_bottom_half_coeffs_inputs_for_angle_def)

lemma frame_solves_test_env:
  assumes "\<bar>angle\<bar> \<le> 2 ^ 31" and "height img < 2 ^ 31"
  shows "frame_solves test_env img bottom_skew angle"
proof -
  obtain pa where "coeffs_inputs img bottom_skew angle = Inr (pa, second_list img)"
    using coeffs_inputs_small [OF assms] by blast
  then show ?thesis
    by (simp add: frame_solves_def find_coeffs_def test_env_def second_list_def)
qed

text \<open>
  C2. For a frame count \<open>N \<ge> 1\<close> the loop runs over \<^verbatim>\<open>range(0, 91, step)\<close> with
  \<open>step = 90 div N + 1\<close>; when the solve of each of these frames succeeds, the generator
  returns exactly \<open>90 div step + 1\<close> frames: 10 frames for \<open>N = 10\<close>, and for \<open>N = 1\<close> the
  single frame of angle 1.
\<close>

theorem make_angles_sprite_set_frame_count:
  assumes "1 \<le> count"
    and "py_range 0 91 (90 div count + 1) = Inr angles"
    and "\<forall>a \<in> set angles. frame_solves e img bottom_skew (a + 1)"
  shows "\<exists>frames. make_angles_sprite_set e img count bottom_skew = Inr frames
           \<and> int (length frames) = 90 div (90 div count + 1) + 1
           \<and> (count = 10 \<longrightarrow> length frames = 10)
           \<and> (count = 1 \<longrightarrow>
                (\<exists>pa pb coeffs. coeffs_inputs img bottom_skew 1 = Inr (pa, pb)
                   \<and> find_coeffs e pa pb = Inr coeffs
                   \<and> frames = [transform img (width img, height img) coeffs]))"
proof -
  obtain frames where
    fr: "make_angles_sprite_set e img count bottom_skew = Inr frames"
      "int (length frames) = 90 div (90 div count + 1) + 1"
    using make_angles_sprite_set_solves [OF assms] by blast
  have ten: "length frames = 10" if "count = 10"
    using fr(2) that by simp
  have one: "\<exists>pa pb coeffs. coeffs_inputs img bottom_skew 1 = Inr (pa, pb)
                   \<and> find_coeffs e pa pb = Inr coeffs
                   \<and> frames = [transform img (width img, height img) coeffs]" if c: "count = 1"
  proof -
    have "py_range 0 91 91 = Inr [0]" by (simp add: py_range_def)
    with assms(2) c have a: "angles = [0]" by simp
    with assms(3) have "frame_solves e img bottom_skew 1" by simp
    then obtain pa pb coeffs where
      s: "coeffs_inputs img bottom_skew 1 = Inr (pa, pb)" "find_coeffs e pa pb = Inr coeffs"
      using frame_solvesD by blast
    have "make_angles_sprite_set e img count bottom_skew
            = Inr [transform img (width img, height img) coeffs]"
      using s c \<open>py_range 0 91 91 = Inr [0]\<close> by (simp add: make_angles_sprite_set_def)
    with fr(1) s show ?thesis by simp
  qed
  from fr ten one show ?thesis by blast
qed

theorem make_angles_sprite_set_frame_count_witness:
  "(1::int) \<le> 10
   \<and> py_range 0 91 (90 div 10 + 1) = Inr [0, 10, 20, 30, 40, 50, 60, 70, 80, 90]
   \<and> list_all (\<lambda>a. frame_solves test_env (Image 48 50 (Fill BACKGROUND_COLOR)) False (a + 1))
        [0, 10, 20, 30, 40, 50, 60, 70, 80, 90]
   \<and> (\<exists>frames. make_angles_sprite_set test_env (Image 48 50 (Fill BACKGROUND_COLOR)) 10 False
                  = Inr frames
         \<and> length frames = 10)"
proof -
  have r: "py_range 0 91 (90 div 10 + 1) = Inr [0, 10, 20, 30, 40, 50, 60, 70, 80, 90]"
    by (simp add: py_range_def upt_rec)
  have s: "\<forall>a \<in> set [0, 10, 20, 30, 40, 50, 60, 70, 80, 90].
             frame_solves test_env (Image 48 50 (Fill BACKGROUND_COLOR)) False (a + 1)"
    by (auto intro!: frame_solves_test_env)
  show ?thesis
    using make_angles_sprite_set_frame_count [OF _ r s] r s
    by (simp add: list_all_iff)
qed

section \<open>The animation sheets\<close>

lemma make_sprite_Inr:
  assumes "truetype e font font_size = Inr fnt"
  shows "\<exists>img. make_sprite e character font_size font = Inr img
           \<and> width img = 48 \<and> height img = 100"
  using assms
  by (simp add: make_sprite_def image_new_def TILE_WIDTH_def TILE_HEIGHT_def Let_def
      split: prod.splits)

lemma halves_size:
  assumes "width img = 48" "height img = 100"
  shows "width (get_top_half img) = 48" "height (get_top_half img) = 50"
    "width (get_bottom_half img) = 48" "height (get_bottom_half img) = 50"
  using assms by (simp_all add: get_top_half_def get_bottom_half_def)

lemma py_range_ten: "py_range 0 91 (90 div 10 + 1) = Inr [0, 10, 20, 30, 40, 50, 60, 70, 80, 90]"
  by (simp add: py_range_def upt_rec)

lemma ten_frames:
  assumes "\<forall>a \<in> set [0, 10, 20, 30, 40, 50, 60, 70, 80, 90].
             frame_solves e img bottom_skew (a + 1)"
  shows "\<exists>frames. make_angles_sprite_set e img 10 bottom_skew = Inr frames
           \<and> length frames = 10
           \<and> (\<forall>f \<in> set frames. width f = width img \<and> height f = height img)"
  using make_angles_sprite_set_solves [OF _ py_range_ten assms] by auto

lemma digits_loop_solves:
  assumes "truetype e font font_size = Inr fnt"
    and "\<And>img bottom_skew a. width img = 48 \<Longrightarrow> height img = 50 \<Longrightarrow>
           a \<in> set [0, 10, 20, 30, 40, 50, 60, 70, 80, 90] \<Longrightarrow>
           frame_solves e img bottom_skew (a + 1)"
  shows "\<exists>bs ts. digits_loop e font_size font ds (bottom_sprites, top_sprites)
             = Inr (bottom_sprites @ bs, top_sprites @ ts)
           \<and> length bs = 10 * length ds \<and> length ts = 10 * length ds
           \<and> (\<forall>f \<in> set bs \<union> set ts. width f = 48 \<and> height f = 50)"
proof (induction ds arbitrary: bottom_sprites top_sprites)
  case Nil
  then show ?case by simp
next
  case (Cons i rest)
  obtain img where
    img: "make_sprite e (digit_str i) font_size font = Inr img" "width img = 48" "height img = 100"
    using make_sprite_Inr [OF assms(1)] by blast
  note hs = halves_size [OF img(2,3)]
  have "\<forall>a \<in> set [0, 10, 20, 30, 40, 50, 60, 70, 80, 90].
          frame_solves e (get_bottom_half img) True (a + 1)"
    using assms(2) [OF hs(3,4)] by blast
  from ten_frames [OF this] obtain bf where
    bf: "make_angles_sprite_set e (get_bottom_half img) 10 True = Inr bf" "length bf = 10"
      "\<forall>f \<in> set bf. width f = 48 \<and> height f = 50"
    using hs by auto
  have "\<forall>a \<in> set [0, 10, 20, 30, 40, 50, 60, 70, 80, 90].
          frame_solves e (get_top_half img) False (a + 1)"
    using assms(2) [OF hs(1,2)] by blast
  from ten_frames [OF this] obtain tf where
    tf: "make_angles_sprite_set e (get_top_half img) 10 False = Inr tf" "length tf = 10"
      "\<forall>f \<in> set tf. width f = 48 \<and> height f = 50"
    using hs by auto
  from Cons.IH [of "bottom_sprites @ bf" "top_sprites @ tf"] obtain bs ts where
    r: "digits_loop e font_size font rest (bottom_sprites @ bf, top_sprites @ tf)
          = Inr ((bottom_sprites @ bf) @ bs, (top_sprites @ tf) @ ts)"
      "length bs = 10 * length rest" "length ts = 10 * length rest"
      "\<forall>f \<in> set bs \<union> set ts. width f = 48 \<and> height f = 50"
    by blast
  have "digits_loop e font_size font (i # rest) (bottom_sprites, top_sprites)
          = Inr (bottom_sprites @ (bf @ bs), top_sprites @ (tf @ ts))"
    using img(1) bf(1) tf(1) r(1) by (simp add: Let_def)
  moreover have "length (bf @ bs) = 10 * length (i # rest)" "length (tf @ ts) = 10 * length (i # rest)"
    using bf(2) tf(2) r(2,3) by simp_all
  moreover have "\<forall>f \<in> set (bf @ bs) \<union> set (tf @ ts). width f = 48 \<and> height f = 50"
    using bf(3) tf(3) r(4) by auto
  ultimately show ?case by blast
qed

lemma pack_hundred:
  assumes "length images = 100"
    and "\<forall>t \<in> set images. width t = 48 \<and> height t = 50"
  shows "\<exists>sheet. pack_images_to_sheet images 10 = Inr sheet
           \<and> width sheet = 480 \<and> height sheet = 500"
proof -
  obtain first others where fo: "images = first # others"
    using assms(1) by (cases images) simp_all
  have dims: "width first = 48" "height first = 50"
    using assms by (simp_all add: fo)
  have td: "py_truediv (int (length images)) 10 = Inr 10"
    by (simp add: assms(1) truediv_100_10)
  show ?thesis
    using pack_images_to_sheet_Inr [OF td fo]
    by (simp add: dims width_paste_loop height_paste_loop)
qed

lemma animation_sheets_size:
  assumes "truetype e font font_size = Inr fnt"
    and "\<And>img bottom_skew a. width img = 48 \<Longrightarrow> height img = 50 \<Longrightarrow>
           a \<in> set [0, 10, 20, 30, 40, 50, 60, 70, 80, 90] \<Longrightarrow>
           frame_solves e img bottom_skew (a + 1)"
  shows "\<exists>bottom_sheet top_sheet.
           make_animations_sheets e font_size font
             = Inr [(''bottom_animation_sheet.bmp'', bottom_sheet),
                    (''top_animation_sheet.bmp'', top_sheet)]
           \<and> width bottom_sheet = 480 \<and> height bottom_sheet = 500
           \<and> width top_sheet = 480 \<and> height top_sheet = 500"
proof -
  from digits_loop_solves [OF assms, of "[0 ..< 10]" "[]" "[]"] obtain bs ts where
    d: "digits_loop e font_size font [0 ..< 10] ([], []) = Inr (bs, ts)"
      "length bs = 100" "length ts = 100"
      "\<forall>f \<in> set bs \<union> set ts. width f = 48 \<and> height f = 50"
    by auto
  obtain b where b: "pack_images_to_sheet bs 10 = Inr b" "width b = 480" "height b = 500"
    using pack_hundred [OF d(2)] d(4) by auto
  obtain t where t: "pack_images_to_sheet ts 10 = Inr t" "width t = 480" "height t = 500"
    using pack_hundred [OF d(3)] d(4) by auto
  have "make_animations_sheets e font_size font
          = Inr [(''bottom_animation_sheet.bmp'', convert b),
                 (''top_animation_sheet.bmp'', convert t)]"
    using d(1) b(1) t(1) by (simp add: make_animations_sheets_def)
  moreover have "width (convert b) = 480" "height (convert b) = 500"
    "width (convert t) = 480" "height (convert t) = 500"
    using b t by (simp_all add: convert_def)
  ultimately show ?thesis by blast
qed

lemma test_env_sheets:
  "\<exists>bottom_sheet top_sheet.
     make_animations_sheets test_env DEFAULT_FONT_SIZE DEFAULT_FONT
       = Inr [(''bottom_animation_sheet.bmp'', bottom_sheet),
              (''top_animation_sheet.bmp'', top_sheet)]
     \<and> width bottom_sheet = 480 \<and> height bottom_sheet = 500
     \<and> width top_sheet = 480 \<and> height top_sheet = 500"
proof (rule animation_sheets_size)
  show "truetype test_env DEFAULT_FONT DEFAULT_FONT_SIZE = Inr (DEFAULT_FONT, DEFAULT_FONT_SIZE)"
    by (simp add: test_env_def)
next
  fix img :: image and bottom_skew and a :: int
  assume "height img = 50" and "a \<in> set [0, 10, 20, 30, 40, 50, 60, 70, 80, 90]"
  then show "frame_solves test_env img bottom_skew (a + 1)"
    by (intro frame_solves_test_env) auto
qed

text \<open>
  C4, as amended. The animation frames are made from the two halves of a sprite, 48 by 50
  pixels each. When the font loads and the solve of every frame succeeds, the run writes
  the bottom and the top animation sheet, each of 100 frames packed ten to a row and
  each of 480 by 500 pixels: width \<open>48 * 10\<close> and height \<open>50 * 10\<close>.
\<close>

theorem animation_sheets_dimensions:
  assumes "truetype e font font_size = Inr fnt"
    and "\<And>img bottom_skew a. width img = 48 \<Longrightarrow> height img = 50 \<Longrightarrow>
           a \<in> set [0, 10, 20, 30, 40, 50, 60, 70, 80, 90] \<Longrightarrow>
           frame_solves e img bottom_skew (a + 1)"
  shows "\<exists>bottom_sheet top_sheet.
           make_animations_sheets e font_size font
             = Inr [(''bottom_animation_sheet.bmp'', bottom_sheet),
                    (''top_animation_sheet.bmp'', top_sheet)]
           \<and> width bottom_sheet = 480 \<and> height bottom_sheet = 500
           \<and> width top_sheet = 480 \<and> height top_sheet = 500"
  using assms by (rule animation_sheets_size)

theorem animation_sheets_dimensions_witness:
  "truetype test_env DEFAULT_FONT DEFAULT_FONT_SIZE = Inr (DEFAULT_FONT, DEFAULT_FONT_SIZE)
   \<and> list_all (\<lambda>a. frame_solves test_env (Image 48 50 (Fill BACKGROUND_COLOR)) True (a + 1))
        [0, 10, 20, 30, 40, 50, 60, 70, 80, 90]
   \<and> (\<exists>bottom_sheet top_sheet.
         make_animations_sheets test_env DEFAULT_FONT_SIZE DEFAULT_FONT
           = Inr [(''bottom_animation_sheet.bmp'', bottom_sheet),
                  (''top_animation_sheet.bmp'', top_sheet)]
         \<and> width bottom_sheet = 480 \<and> height bottom_sheet = 500
         \<and> width top_sheet = 480 \<and> height top_sheet = 500)"
proof -
  have f: "truetype test_env DEFAULT_FONT DEFAULT_FONT_SIZE = Inr (DEFAULT_FONT, DEFAULT_FONT_SIZE)"
    by (simp add: test_env_def)
  have s: "frame_solves test_env img bottom_skew (a + 1)"
    if "height img = 50" "a \<in> set [0, 10, 20, 30, 40, 50, 60, 70, 80, 90]"
    for img bottom_skew and a :: int
    using that by (intro frame_solves_test_env) auto
  have "list_all (\<lambda>a. frame_solves test_env (Image 48 50 (Fill BACKGROUND_COLOR)) True (a + 1))
          [0, 10, 20, 30, 40, 50, 60, 70, 80, 90]"
    unfolding list_all_iff using s by simp
  with f animation_sheets_dimensions [OF f s] show ?thesis by simp
qed

text \<open>A height of 1000 pixels would be the one of full tiles, not of halves.\<close>

theorem animation_sheets_counterexample:
  "\<not> (\<exists>bottom_sheet top_sheet.
        make_animations_sheets test_env DEFAULT_FONT_SIZE DEFAULT_FONT
          = Inr [(''bottom_animation_sheet.bmp'', bottom_sheet),
                 (''top_animation_sheet.bmp'', top_sheet)]
        \<and> width bottom_sheet = 480 \<and> height bottom_sheet = 1000
        \<and> width top_sheet = 480 \<and> height top_sheet = 1000)"
  using test_env_sheets by auto

section \<open>The displacements of the planners\<close>

lemma to_double_0: "to_double 0 = 0"
  by (simp add: to_double_def)

lemma to_double_8: "to_double 8 = 8"
  using to_double_of_int [of 8] by simp

lemma x_vals_at_0: "top_x_val 0 = Inr 0" "bottom_x_val 0 = Inr 8"
  using top_x_val_small [of 0] bottom_x_val_small [of 0]
  by (simp_all add: to_double_0 to_double_8)

lemma x_vals_at_90: "top_x_val 90 = Inr 8" "bottom_x_val 90 = Inr 0"
  using top_x_val_small [of 90] bottom_x_val_small [of 90]
  by (simp_all add: to_double_0 to_double_8)

lemma x_vals_range:
  assumes "0 \<le> a" "a \<le> 90"
  shows "\<exists>x. top_x_val a = Inr x \<and> 0 \<le> x \<and> x \<le> 8"
    and "\<exists>x. bottom_x_val a = Inr x \<and> 0 \<le> x \<and> x \<le> 8"
proof -
  have small: "\<bar>a\<bar> \<le> 2 ^ 31" using assms by simp
  have t: "(0::rat) \<le> of_int (a * 8) / 90" "(of_int (a * 8) :: rat) / 90 \<le> 8"
    using assms by simp_all
  have b: "(0::rat) \<le> of_int ((90 - a) * 8) / 90" "(of_int ((90 - a) * 8) :: rat) / 90 \<le> 8"
    using assms by simp_all
  show "\<exists>x. top_x_val a = Inr x \<and> 0 \<le> x \<and> x \<le> 8"
    using top_x_val_small [OF small] to_double_nonneg [OF t(1)] to_double_mono [OF t(2)]
    by (simp add: to_double_8)
  show "\<exists>x. bottom_x_val a = Inr x \<and> 0 \<le> x \<and> x \<le> 8"
    using bottom_x_val_small [OF small] to_double_nonneg [OF b(1)] to_double_mono [OF b(2)]
    by (simp add: to_double_8)
qed

lemma val_py_min: "val (py_min a b) = min (val a) (val b)"
  by (simp add: py_min_def min_def)

lemma y_val_Inr:
  assumes "y_val img a = Inr y"
  shows "val y = min (to_double (of_int (a * int (height img)) / 90)) (of_int (int (height img) - 1))"
proof -
  from assms obtain q where q: "py_truediv (a * int (height img)) 90 = Inr q"
    and y: "y = py_min (PFloat q) (PInt (int (height img) - 1))"
    by (auto simp: y_val_def split: sum.splits)
  from q have "q = to_double (of_int (a * int (height img)) / 90)"
    by (simp add: py_truediv_def Let_def split: if_splits)
  then show ?thesis by (simp add: y val_py_min)
qed

text \<open>
  C7, as amended. At angle 0 the x displacement of the top planner is zero and the one of
  the bottom planner is the padding, 8; at angle 90 it is the other way round; and
  between the two angles both stay between 0 and the padding.
\<close>

theorem x_val_extremes:
  "top_x_val 0 = Inr 0 \<and> bottom_x_val 0 = Inr (of_int PADDING_SIZE)
   \<and> top_x_val 90 = Inr (of_int PADDING_SIZE) \<and> bottom_x_val 90 = Inr 0
   \<and> (\<forall>a. 0 \<le> a \<and> a \<le> 90 \<longrightarrow>
         (\<exists>x. top_x_val a = Inr x \<and> 0 \<le> x \<and> x \<le> of_int PADDING_SIZE)
         \<and> (\<exists>x. bottom_x_val a = Inr x \<and> 0 \<le> x \<and> x \<le> of_int PADDING_SIZE))"
  using x_vals_at_0 x_vals_at_90 x_vals_range by (simp add: PADDING_SIZE_def)

theorem x_val_extremes_witness:
  "(0::int) \<le> 45 \<and> (45::int) \<le> 90
   \<and> (\<exists>x. top_x_val 45 = Inr x \<and> 0 \<le> x \<and> x \<le> of_int PADDING_SIZE)
   \<and> (\<exists>x. bottom_x_val 45 = Inr x \<and> 0 \<le> x \<and> x \<le> of_int PADDING_SIZE)"
  using x_val_extremes by simp

text \<open>It is not the bottom planner that starts at zero.\<close>

theorem x_val_extremes_counterexample:
  "\<not> (bottom_x_val 0 = Inr 0 \<and> top_x_val 0 = Inr (of_int PADDING_SIZE))"
  using x_vals_at_0 by (simp add: PADDING_SIZE_def)

text \<open>
  C8. The y displacement of both planners is \<^verbatim>\<open>min((angle * h) / 90, h - 1)\<close>, with the
  quotient rounded to a float: it does not decrease when the angle grows, it never exceeds
  \<open>h - 1\<close>, and at raw angle 89, which the generator passes as 90, it is \<open>h - 1\<close>. (It is
  computed for every angle and height of at most 31 bits.)
\<close>

theorem y_val_grows_clamped:
  "(\<forall>a y. y_val img a = Inr y \<longrightarrow>
      val y = min (to_double (of_int (a * int (height img)) / 90))
                (of_int (int (height img) - 1)))
   \<and> (\<forall>a b ya yb. a \<le> b \<and> y_val img a = Inr ya \<and> y_val img b = Inr yb \<longrightarrow> val ya \<le> val yb)
   \<and> (\<forall>a y. y_val img a = Inr y \<longrightarrow> val y \<le> of_int (int (height img) - 1))
   \<and> (height img < 2 ^ 31 \<longrightarrow>
        (\<forall>a. \<bar>a\<bar> \<le> 2 ^ 31 \<longrightarrow> (\<exists>y. y_val img a = Inr y))
        \<and> y_val img 90 = Inr (PInt (int (height img) - 1)))"
proof (intro conjI allI impI)
  fix a y
  assume "y_val img a = Inr y"
  then show "val y = min (to_double (of_int (a * int (height img)) / 90))
                        (of_int (int (height img) - 1))"
    by (rule y_val_Inr)
next
  fix a b :: int and ya yb
  assume h: "a \<le> b \<and> y_val img a = Inr ya \<and> y_val img b = Inr yb"
  then have "a * int (height img) \<le> b * int (height img)"
    by (intro mult_right_mono) simp_all
  then have "(of_int (a * int (height img)) :: rat) / 90 \<le> of_int (b * int (height img)) / 90"
    by (simp add: divide_right_mono del: of_int_mult)
  then have "to_double (of_int (a * int (height img)) / 90)
               \<le> to_double (of_int (b * int (height img)) / 90)"
    by (rule to_double_mono)
  moreover have "val ya = min (to_double (of_int (a * int (height img)) / 90))
                            (of_int (int (height img) - 1))"
    using h by (intro y_val_Inr) simp
  moreover have "val yb = min (to_double (of_int (b * int (height img)) / 90))
                            (of_int (int (height img) - 1))"
    using h by (intro y_val_Inr) simp
  ultimately show "val ya \<le> val yb"
    by (simp add: min_le_iff_disj)
next
  fix a y
  assume "y_val img a = Inr y"
  then have "val y = min (to_double (of_int (a * int (height img)) / 90))
                        (of_int (int (height img) - 1))"
    by (rule y_val_Inr)
  then show "val y \<le> of_int (int (height img) - 1)"
    by simp
next
  fix a :: int
  assume "height img < 2 ^ 31" "\<bar>a\<bar> \<le> 2 ^ 31"
  then show "\<exists>y. y_val img a = Inr y"
    using y_val_small [of a img] by simp
next
  assume h: "height img < 2 ^ 31"
  then have "int (height img) < 2 ^ 31"
    by (metis of_nat_less_iff of_nat_numeral of_nat_power)
  then have "\<bar>int (height img)\<bar> \<le> 2 ^ 53" by simp
  then have "to_double (of_int (int (height img))) = of_int (int (height img))"
    by (rule to_double_of_int)
  then show "y_val img 90 = Inr (PInt (int (height img) - 1))"
    using y_val_small [of 90 img] h by (simp add: py_min_def)
qed

theorem y_val_grows_clamped_witness:
  "(1::int) \<le> 11 \<and> height (Image 48 50 (Fill BACKGROUND_COLOR)) < 2 ^ 31
   \<and> (\<exists>ya yb. y_val (Image 48 50 (Fill BACKGROUND_COLOR)) 1 = Inr ya
         \<and> y_val (Image 48 50 (Fill BACKGROUND_COLOR)) 11 = Inr yb
         \<and> val ya = 2501999792983609 / 4503599627370496
         \<and> val yb = 1720124857676231 / 281474976710656
         \<and> val ya \<le> val yb \<and> val yb \<le> 49)
   \<and> y_val (Image 48 50 (Fill BACKGROUND_COLOR)) 90 = Inr (PInt 49)"
proof -
  let ?img = "Image 48 50 (Fill BACKGROUND_COLOR)"
  note t = y_val_grows_clamped [of ?img]
  have h: "height ?img < 2 ^ 31" by simp
  from t have t0: "\<And>a y. y_val ?img a = Inr y \<Longrightarrow>
      val y = min (to_double (of_int (a * int (height ?img)) / 90))
                (of_int (int (height ?img) - 1))"
    by blast
  from t have t1: "\<And>a b ya yb. a \<le> b \<and> y_val ?img a = Inr ya \<and> y_val ?img b = Inr yb
      \<Longrightarrow> val ya \<le> val yb"
    by blast
  from t have t2: "\<And>a y. y_val ?img a = Inr y \<Longrightarrow> val y \<le> of_int (int (height ?img) - 1)"
    by blast
  from t h have t3: "\<And>a. \<bar>a\<bar> \<le> 2 ^ 31 \<Longrightarrow> \<exists>y. y_val ?img a = Inr y"
    by blast
  from t h have t4: "y_val ?img 90 = Inr (PInt (int (height ?img) - 1))"
    by blast
  obtain ya where ya: "y_val ?img 1 = Inr ya" using t3 [of 1] by auto
  obtain yb where yb: "y_val ?img 11 = Inr yb" using t3 [of 11] by auto
  have e1: "to_double (50 / 90) = 2501999792983609 / 4503599627370496" by code_simp
  have e2: "to_double (550 / 90) = 1720124857676231 / 281474976710656" by code_simp
  have va: "val ya = 2501999792983609 / 4503599627370496"
    using t0 [OF ya] e1 by simp
  have vb: "val yb = 1720124857676231 / 281474976710656"
    using t0 [OF yb] e2 by simp
  have "val ya \<le> val yb" using t1 [of 1 11 ya yb] ya yb by simp
  moreover have "val yb \<le> 49" using t2 [OF yb] by simp
  moreover have "y_val ?img 90 = Inr (PInt 49)" using t4 by simp
  ultimately show ?thesis
    using ya yb va vb by (intro conjI exI [of _ ya] exI [of _ yb]) simp_all
qed

section \<open>The quadrilaterals of the planners\<close>

lemma to_double_1: "to_double 1 = 1"
  using to_double_of_int [of 1] by simp

lemma to_double_half: "to_double (1 / 2) = 1 / 2"
  by code_simp

lemma to_double_64th: "to_double (1 / 64) = 1 / 64"
  by code_simp

text \<open>The two displaced corners lie on either side of the tile.\<close>

lemma displaced_corners:
  assumes "- (1 / 2) \<le> x" and "1 \<le> w"
  shows "val (py_neg (py_add (PFloat x) (PInt 1))) < 0"
    and "0 < val (py_add (PInt (int w)) (PFloat x))"
proof -
  have "1 / 2 \<le> x + 1" using assms(1) by simp
  then have "to_double (1 / 2) \<le> to_double (x + 1)" by (rule to_double_mono)
  then show "val (py_neg (py_add (PFloat x) (PInt 1))) < 0"
    by (simp add: to_double_half to_double_1)
  have "(1::rat) \<le> of_int (int w)" using assms(2) by simp
  then have "to_double 1 \<le> to_double (of_int (int w))" by (rule to_double_mono)
  then have "1 / 2 \<le> to_double (of_int (int w)) + x"
    using assms(1) by (simp add: to_double_1)
  then have "to_double (1 / 2) \<le> to_double (to_double (of_int (int w)) + x)"
    by (rule to_double_mono)
  then show "0 < val (py_add (PInt (int w)) (PFloat x))"
    by (simp add: to_double_half)
qed

lemma y_val_below_height:
  assumes "y_val img a = Inr y"
  shows "val y < of_int (int (height img))"
  using y_val_Inr [OF assms] by simp

lemma y_val_positive:
  assumes "y_val img a = Inr y" "1 \<le> a" "2 \<le> height img"
  shows "0 < val y"
proof -
  have "2 \<le> int (height img)" using assms(3) by simp
  then have "1 * 2 \<le> a * int (height img)"
    using assms(2) by (intro mult_mono) simp_all
  then have "(2::rat) \<le> of_int (a * int (height img))"
    by (metis mult_1 of_int_le_iff of_int_numeral)
  then have "(1::rat) / 64 \<le> of_int (a * int (height img)) / 90" by simp
  then have "to_double (1 / 64) \<le> to_double (of_int (a * int (height img)) / 90)"
    by (rule to_double_mono)
  then have "0 < to_double (of_int (a * int (height img)) / 90)"
    by (simp add: to_double_64th)
  then show ?thesis using y_val_Inr [OF assms(1)] assms(3) by simp
qed

lemma top_x_val_Inr:
  assumes "top_x_val a = Inr x"
  shows "x = to_double (of_int (a * 8) / 90)"
  using assms by (simp add: top_x_val_def PADDING_SIZE_def py_truediv_def Let_def split: if_splits)

lemma bottom_x_val_Inr:
  assumes "bottom_x_val a = Inr x"
  shows "x = to_double (of_int ((90 - a) * 8) / 90)"
  using assms
  by (simp add: bottom_x_val_def PADDING_SIZE_def py_truediv_def Let_def split: if_splits)

lemma top_x_val_lower:
  assumes "top_x_val a = Inr x" "0 \<le> a"
  shows "0 \<le> x"
proof -
  have "(0::rat) \<le> of_int (a * 8) / 90" using assms(2) by simp
  then show ?thesis unfolding top_x_val_Inr [OF assms(1)] by (rule to_double_nonneg)
qed

lemma bottom_x_val_lower:
  assumes "bottom_x_val a = Inr x" "a \<le> 91"
  shows "- (1 / 2) \<le> x"
proof -
  have "- 8 \<le> (90 - a) * 8" using assms(2) by simp
  then have "(- 8 :: rat) \<le> of_int ((90 - a) * 8)"
    by (metis of_int_le_iff of_int_minus of_int_numeral)
  then have "- (1 / 2 :: rat) \<le> of_int ((90 - a) * 8) / 90" by simp
  then have "to_double (- (1 / 2)) \<le> to_double (of_int ((90 - a) * 8) / 90)"
    by (rule to_double_mono)
  then show ?thesis
    unfolding bottom_x_val_Inr [OF assms(1)] by (simp add: to_double_minus to_double_half)
qed

lemma top_quad_good:
  assumes "x0 < 0" "0 < x1" "y < h" "0 < w"
    and "val a0 = x0" "val a1 = x1" "val b = y" "val c = w" "val d = h"
  shows "0 < area2 [(a0, b), (a1, b), (c, d), (PInt 0, d)]"
    and "no_three_collinear [(a0, b), (a1, b), (c, d), (PInt 0, d)]"
proof -
  have p: "0 < (x1 - x0) * (h - y)" "0 < w * (h - y)"
    using assms(1-4) by simp_all
  have "shoelace (a0, b) [(a0, b), (a1, b), (c, d), (PInt 0, d)] = (x1 - x0) * (h - y) + w * (h - y)"
    by (simp add: assms(5-9) algebra_simps)
  then show "0 < area2 [(a0, b), (a1, b), (c, d), (PInt 0, d)]"
    using p by (simp add: area2_def)
  have "cross (a0, b) (a1, b) (c, d) = (x1 - x0) * (h - y)"
    "cross (a0, b) (a1, b) (PInt 0, d) = (x1 - x0) * (h - y)"
    "cross (a0, b) (c, d) (PInt 0, d) = w * (h - y)"
    "cross (a1, b) (c, d) (PInt 0, d) = w * (h - y)"
    by (simp_all add: cross_def assms(5-9) algebra_simps)
  then show "no_three_collinear [(a0, b), (a1, b), (c, d), (PInt 0, d)]"
    using assms(1-4) by auto
qed

lemma bottom_quad_good:
  assumes "x0 < 0" "0 < x1" "0 < y" "0 < w"
    and "val a0 = x0" "val a1 = x1" "val b = y" "val c = w"
  shows "0 < area2 [(PInt 0, PInt 0), (c, PInt 0), (a1, b), (a0, b)]"
    and "no_three_collinear [(PInt 0, PInt 0), (c, PInt 0), (a1, b), (a0, b)]"
proof -
  have p: "0 < w * y" "0 < y * (x1 - x0)"
    using assms(1-4) by simp_all
  have "shoelace (PInt 0, PInt 0) [(PInt 0, PInt 0), (c, PInt 0), (a1, b), (a0, b)]
          = w * y + y * (x1 - x0)"
    by (simp add: assms(5-8) algebra_simps)
  then show "0 < area2 [(PInt 0, PInt 0), (c, PInt 0), (a1, b), (a0, b)]"
    using p by (simp add: area2_def)
  have "cross (PInt 0, PInt 0) (c, PInt 0) (a1, b) = w * y"
    "cross (PInt 0, PInt 0) (c, PInt 0) (a0, b) = w * y"
    "cross (PInt 0, PInt 0) (a1, b) (a0, b) = y * (x1 - x0)"
    "cross (c, PInt 0) (a1, b) (a0, b) = y * (x1 - x0)"
    by (simp_all add: cross_def assms(5-8) algebra_simps)
  then show "no_three_collinear [(PInt 0, PInt 0), (c, PInt 0), (a1, b), (a0, b)]"
    using assms(1-4) by auto
qed


lemma coeffs_inputs_good:
  assumes "1 \<le> a" "a \<le> 91" "1 \<le> width img" "1 \<le> height img"
    and "bottom_skew \<longrightarrow> 2 \<le> height img"
    and "coeffs_inputs img bottom_skew a = Inr (pa, pb)"
  shows "0 < area2 pa \<and> no_three_collinear pa"
proof (cases bottom_skew)
  case False
  with assms(6) obtain x y where
    x: "top_x_val a = Inr x" and y: "y_val img a = Inr y"
    and pa: "pa = [(py_neg (py_add (PFloat x) (PInt 1)), y),
                   (py_add (PInt (int (width img))) (PFloat x), y),
                   (PInt (int (width img)), PInt (int (height img))),
                   (PInt 0, PInt (int (height img)))]"
    by (auto simp: coeffs_inputs_def find_top_half_coeffs_inputs_for_angle_def
        split: sum.splits)
  have "0 \<le> a" using assms(1) by simp
  with x have "0 \<le> x" by (rule top_x_val_lower)
  then have x': "- (1 / 2) \<le> x" by simp
  define a0 where "a0 = py_neg (py_add (PFloat x) (PInt 1))"
  define a1 where "a1 = py_add (PInt (int (width img))) (PFloat x)"
  have c: "val a0 < 0" "0 < val a1"
    unfolding a0_def a1_def using displaced_corners [OF x' assms(3)] by blast+
  have yh: "val y < val (PInt (int (height img)))"
    using y_val_below_height [OF y] by simp
  have w: "0 < val (PInt (int (width img)))"
    using assms(3) by simp
  show ?thesis
    unfolding pa a0_def [symmetric] a1_def [symmetric]
    using top_quad_good [OF c yh w refl refl refl refl refl] by blast
next
  case True
  with assms(6) obtain x y where
    x: "bottom_x_val a = Inr x" and y: "y_val img a = Inr y"
    and pa: "pa = [(PInt 0, PInt 0),
                   (PInt (int (width img)), PInt 0),
                   (py_add (PInt (int (width img))) (PFloat x), y),
                   (py_neg (py_add (PFloat x) (PInt 1)), y)]"
    by (auto simp: coeffs_inputs_def find_bottom_half_coeffs_inputs_for_angle_def
        split: sum.splits)
  have x': "- (1 / 2) \<le> x" using x assms(2) by (rule bottom_x_val_lower)
  have h: "2 \<le> height img" using True assms(5) by simp
  define a0 where "a0 = py_neg (py_add (PFloat x) (PInt 1))"
  define a1 where "a1 = py_add (PInt (int (width img))) (PFloat x)"
  have c: "val a0 < 0" "0 < val a1"
    unfolding a0_def a1_def using displaced_corners [OF x' assms(3)] by blast+
  have yp: "0 < val y"
    using y assms(1) h by (rule y_val_positive)
  have w: "0 < val (PInt (int (width img)))"
    using assms(3) by simp
  show ?thesis
    unfolding pa a0_def [symmetric] a1_def [symmetric]
    using bottom_quad_good [OF c yp w refl refl refl refl] by blast
qed

text \<open>
  C9, as amended. For every angle the frame generator passes (they lie between 1 and 91)
  and every half image of positive width and of height at least 2, or at least 1 for the
  top planner, the source quadrilateral of the planner has positive area and no three
  collinear corners; for sizes of at most 31 bits the planner does return it.
\<close>

theorem planners_quads_not_degenerate:
  assumes "1 \<le> a" "a \<le> 91" "1 \<le> width img" "1 \<le> height img"
    and "bottom_skew \<longrightarrow> 2 \<le> height img"
  shows "(\<forall>pa pb. coeffs_inputs img bottom_skew a = Inr (pa, pb) \<longrightarrow>
            0 < area2 pa \<and> no_three_collinear pa)
       \<and> (height img < 2 ^ 31 \<longrightarrow> (\<exists>pa pb. coeffs_inputs img bottom_skew a = Inr (pa, pb)))"
proof (intro conjI allI impI)
  fix pa pb
  assume "coeffs_inputs img bottom_skew a = Inr (pa, pb)"
  with assms show "0 < area2 pa" "no_three_collinear pa"
    using coeffs_inputs_good by blast+
next
  assume "height img < 2 ^ 31"
  moreover have "\<bar>a\<bar> \<le> 2 ^ 31" using assms(1,2) by simp
  ultimately show "\<exists>pa pb. coeffs_inputs img bottom_skew a = Inr (pa, pb)"
    using coeffs_inputs_small by blast
qed

theorem planners_quads_not_degenerate_witness:
  "(1::int) \<le> 1 \<and> (1::int) \<le> 91
   \<and> 1 \<le> width (Image 48 50 (Fill BACKGROUND_COLOR))
   \<and> 2 \<le> height (Image 48 50 (Fill BACKGROUND_COLOR))
   \<and> height (Image 48 50 (Fill BACKGROUND_COLOR)) < 2 ^ 31
   \<and> (\<exists>pa pb. coeffs_inputs (Image 48 50 (Fill BACKGROUND_COLOR)) True 1 = Inr (pa, pb)
         \<and> 0 < area2 pa \<and> no_three_collinear pa)"
proof -
  let ?img = "Image 48 50 (Fill BACKGROUND_COLOR)"
  have t: "(\<forall>pa pb. coeffs_inputs ?img True 1 = Inr (pa, pb) \<longrightarrow>
              0 < area2 pa \<and> no_three_collinear pa)
         \<and> (height ?img < 2 ^ 31 \<longrightarrow> (\<exists>pa pb. coeffs_inputs ?img True 1 = Inr (pa, pb)))"
    by (rule planners_quads_not_degenerate) simp_all
  then obtain pa pb where p: "coeffs_inputs ?img True 1 = Inr (pa, pb)" by auto
  with t have "0 < area2 pa \<and> no_three_collinear pa" by blast
  with p show ?thesis by auto
qed

text \<open>
  On a half image of height 1 the clamp \<open>h - 1\<close> is 0, and the four source corners of the
  bottom planner lie on the line \<open>y = 0\<close>.
\<close>

theorem bottom_planner_height_one_counterexample:
  "find_bottom_half_coeffs_inputs_for_angle (Image 48 1 (Fill BACKGROUND_COLOR)) 1
     = Inr ([(PInt 0, PInt 0), (PInt 48, PInt 0),
             (PFloat (3934394674466725 / 70368744177664), PInt 0),
             (PFloat (- (627063698116517 / 70368744177664)), PInt 0)],
            [(PInt 0, PInt 0), (PInt 48, PInt 0), (PInt 48, PInt 1), (PInt 0, PInt 1)])
   \<and> area2 [(PInt 0, PInt 0), (PInt 48, PInt 0),
             (PFloat (3934394674466725 / 70368744177664), PInt 0),
             (PFloat (- (627063698116517 / 70368744177664)), PInt 0)] = 0
   \<and> \<not> no_three_collinear [(PInt 0, PInt 0), (PInt 48, PInt 0),
             (PFloat (3934394674466725 / 70368744177664), PInt 0),
             (PFloat (- (627063698116517 / 70368744177664)), PInt 0)]"
proof -
  let ?img = "Image 48 1 (Fill BACKGROUND_COLOR)"
  have "to_double (712 / 90) = 556694953938853 / 70368744177664" by code_simp
  then have x: "bottom_x_val 1 = Inr (556694953938853 / 70368744177664)"
    using bottom_x_val_small [of 1] by simp
  have "to_double (1 / 90) = 6405119470038039 / 576460752303423488" by code_simp
  then have y: "y_val ?img 1 = Inr (PInt 0)"
    using y_val_small [of 1 ?img] by (simp add: py_min_def)
  have a1: "py_add (PInt 48) (PFloat (556694953938853 / 70368744177664))
              = PFloat (3934394674466725 / 70368744177664)"
    by code_simp
  have a0: "py_neg (py_add (PFloat (556694953938853 / 70368744177664)) (PInt 1))
              = PFloat (- (627063698116517 / 70368744177664))"
    by code_simp
  have "find_bottom_half_coeffs_inputs_for_angle ?img 1
     = Inr ([(PInt 0, PInt 0), (PInt 48, PInt 0),
             (PFloat (3934394674466725 / 70368744177664), PInt 0),
             (PFloat (- (627063698116517 / 70368744177664)), PInt 0)],
            [(PInt 0, PInt 0), (PInt 48, PInt 0), (PInt 48, PInt 1), (PInt 0, PInt 1)])"
    by (simp add: find_bottom_half_coeffs_inputs_for_angle_def x y a1 a0 second_list_def
        del: One_nat_def py_add.simps py_neg.simps)
  then show ?thesis by (simp add: area2_def cross_def)
qed

section \<open>The sum of the two x displacements\<close>

lemma binade_unique:
  assumes "0 < q" "- 1022 \<le> e" "2 powi e \<le> q" "q < 2 powi (e + 1)"
  shows "binade q = e"
proof (rule antisym)
  show "binade q \<le> e"
  proof (rule ccontr)
    assume "\<not> binade q \<le> e"
    then have lt: "e + 1 \<le> binade q" by simp
    with assms(2) have "- 1022 < binade q" by simp
    then have "2 powi binade q \<le> q" using assms(1) by (rule binade_bounds(3) [rotated])
    moreover have "(2::rat) powi (e + 1) \<le> 2 powi binade q"
      using lt by (intro power_int_increasing) simp_all
    ultimately show False using assms(4) by linarith
  qed
  show "e \<le> binade q"
  proof (rule ccontr)
    assume "\<not> e \<le> binade q"
    then have lt: "binade q + 1 \<le> e" by simp
    have "q < 2 powi (binade q + 1)" using assms(1) by (rule binade_bounds)
    moreover have "(2::rat) powi (binade q + 1) \<le> 2 powi e"
      using lt by (intro power_int_increasing) simp_all
    ultimately show False using assms(3) by linarith
  qed
qed

lemma round_even_quotient:
  assumes "0 < d"
  shows "round_even (of_int n / of_int d) = div_even n d"
proof -
  have f: "\<lfloor>of_int n / of_int d :: rat\<rfloor> = n div d"
    by (simp add: floor_divide_of_int_eq)
  have "n = n div d * d + n mod d" by simp
  then have "(of_int n :: rat) = of_int (n div d) * of_int d + of_int (n mod d)"
    by (metis of_int_add of_int_mult)
  then have "(of_int n :: rat) / of_int d
               = (of_int (n div d) * of_int d + of_int (n mod d)) / of_int d"
    by simp
  also have "\<dots> = of_int (n div d) + of_int (n mod d) / of_int d"
    using assms by (simp add: add_divide_distrib)
  finally have "(of_int n :: rat) / of_int d = of_int (n div d) + of_int (n mod d) / of_int d" .
  then have r: "(of_int n :: rat) / of_int d - of_int (n div d) = of_int (n mod d) / of_int d"
    by simp
  have lt: "(of_int (n mod d) :: rat) / of_int d < 1 / 2 \<longleftrightarrow> 2 * (n mod d) < d"
  proof -
    have "(of_int (n mod d) :: rat) / of_int d < 1 / 2
            \<longleftrightarrow> (of_int (2 * (n mod d)) :: rat) < of_int d"
      using assms by (simp add: field_simps)
    then show ?thesis by (simp only: of_int_less_iff)
  qed
  have gt: "1 / 2 < (of_int (n mod d) :: rat) / of_int d \<longleftrightarrow> d < 2 * (n mod d)"
  proof -
    have "1 / 2 < (of_int (n mod d) :: rat) / of_int d
            \<longleftrightarrow> (of_int d :: rat) < of_int (2 * (n mod d))"
      using assms by (simp add: field_simps)
    then show ?thesis by (simp only: of_int_less_iff)
  qed
  show ?thesis
    unfolding round_even_def div_even_def Let_def f r lt gt ..
qed

lemma rounds_toD:
  assumes "rounds_to n d m k"
  shows "to_double (of_int n / of_int d) = of_int m / 2 ^ k"
proof -
  from assms have n: "0 < n" and d: "0 < d" and k: "k \<le> 1074"
    and lo: "2 ^ 52 * d \<le> n * 2 ^ k" and hi: "n * 2 ^ k < 2 ^ 53 * d"
    and m: "div_even (n * 2 ^ k) d = m"
    by (simp_all add: rounds_to_def)
  define q :: rat where "q = of_int n / of_int d"
  define e where "e = 52 - int k"
  have q: "0 < q" using n d by (simp add: q_def)
  have u: "(2::rat) powi (e - 52) = 1 / 2 ^ k"
    by (simp add: e_def power_int_minus divide_inverse)
  have "(2::rat) powi (e - 52 + 52) = 2 powi (e - 52) * 2 powi 52"
    by (rule power_int_add) simp
  then have p52: "(2::rat) powi e = 2 ^ 52 / 2 ^ k" by (simp add: u)
  have "(2::rat) powi (e - 52 + 53) = 2 powi (e - 52) * 2 powi 53"
    by (rule power_int_add) simp
  then have p53: "(2::rat) powi (e + 1) = 2 ^ 53 / 2 ^ k" by (simp add: u ac_simps)
  have "(of_int (2 ^ 52 * d) :: rat) \<le> of_int (n * 2 ^ k)"
    using lo by (simp only: of_int_le_iff)
  then have "2 ^ 52 / 2 ^ k \<le> q"
    using d by (simp add: q_def field_simps)
  then have 1: "2 powi e \<le> q" by (simp only: p52)
  have "(of_int (n * 2 ^ k) :: rat) < of_int (2 ^ 53 * d)"
    using hi by (simp only: of_int_less_iff)
  then have "q < 2 ^ 53 / 2 ^ k"
    using d by (simp add: q_def field_simps)
  then have 2: "q < 2 powi (e + 1)" by (simp only: p53)
  have "- 1022 \<le> e" using k by (simp add: e_def)
  then have b: "binade q = e" using q 1 2 by (intro binade_unique)
  have "q / (1 / 2 ^ k) = of_int (n * 2 ^ k) / of_int d"
    by (simp add: q_def)
  then have "round_even (q / (1 / 2 ^ k)) = m"
    using round_even_quotient [OF d, of "n * 2 ^ k"] m by simp
  then have "to_double q = of_int m * (1 / 2 ^ k)"
    using q by (simp only: to_double_pos_eq b u)
  then show ?thesis by (simp add: q_def)
qed

lemma x_sum_checkD:
  assumes "x_sum_check a"
  shows "to_double (to_double (of_int (a * 8) / 90) + to_double (of_int ((90 - a) * 8) / 90)) = 8"
proof -
  define k1 where "k1 = scale_of (a * 8) 90"
  define m1 where "m1 = div_even (a * 8 * 2 ^ k1) 90"
  define k2 where "k2 = scale_of ((90 - a) * 8) 90"
  define m2 where "m2 = div_even ((90 - a) * 8 * 2 ^ k2) 90"
  define n3 where "n3 = m1 * 2 ^ k2 + m2 * 2 ^ k1"
  define k3 where "k3 = scale_of n3 (2 ^ (k1 + k2))"
  from assms have r: "rounds_to (a * 8) 90 m1 k1" "rounds_to ((90 - a) * 8) 90 m2 k2"
    "rounds_to n3 (2 ^ (k1 + k2)) (8 * 2 ^ k3) k3"
    by (simp_all add: x_sum_check_def Let_def k1_def m1_def k2_def m2_def n3_def k3_def)
  have t: "to_double (of_int (a * 8) / 90) = of_int m1 / 2 ^ k1"
    using rounds_toD [OF r(1)] by simp
  have b: "to_double (of_int ((90 - a) * 8) / 90) = of_int m2 / 2 ^ k2"
    using rounds_toD [OF r(2)] by simp
  have "(of_int m1 :: rat) / 2 ^ k1 + of_int m2 / 2 ^ k2 = of_int n3 / of_int (2 ^ (k1 + k2))"
    by (simp add: n3_def power_add field_simps)
  then show ?thesis
    using rounds_toD [OF r(3)] by (simp only: t b) simp
qed

lemma x_sum_check_low: "list_all x_sum_check [1..23]"
  by code_simp

lemma x_sum_check_high: "list_all x_sum_check [24..45]"
  by code_simp

lemma x_sum_91:
  "to_double (to_double (of_int (91 * 8) / 90) + to_double (of_int ((90 - 91) * 8) / 90)) = 8"
  by code_simp

lemma x_sum_92:
  "to_double (736 / 90) = 287729976193115 / 35184372088832"
  "to_double (- 16 / 90) = - (6405119470038039 / 36028797018963968)"
  "to_double (287729976193115 / 35184372088832 + - (6405119470038039 / 36028797018963968))
     = 9007199254740991 / 1125899906842624"
  by code_simp+

lemma x_sum_0_91:
  assumes "0 \<le> a" "a \<le> 91"
  shows "to_double (to_double (of_int (a * 8) / 90) + to_double (of_int ((90 - a) * 8) / 90)) = 8"
proof -
  have mid: "to_double (to_double (of_int (b * 8) / 90) + to_double (of_int ((90 - b) * 8) / 90)) = 8"
    if "1 \<le> b" "b \<le> 45" for b
  proof -
    have "b \<le> 23 \<or> 24 \<le> b" by linarith
    with that have "b \<in> set [1..23] \<or> b \<in> set [24..45]"
      by (simp only: set_upto atLeastAtMost_iff) blast
    then have "x_sum_check b"
      using x_sum_check_low x_sum_check_high by (auto simp only: list_all_iff)
    then show ?thesis by (rule x_sum_checkD)
  qed
  consider "a = 0" | "1 \<le> a" "a \<le> 45" | "46 \<le> a" "a \<le> 89" | "a = 90" | "a = 91"
    using assms by linarith
  then show ?thesis
  proof cases
    case 1
    then show ?thesis by (simp add: to_double_0 to_double_8)
  next
    case 2
    then show ?thesis by (rule mid)
  next
    case 3
    then have "1 \<le> 90 - a" "90 - a \<le> 45" by simp_all
    from mid [OF this] show ?thesis by (simp add: add.commute)
  next
    case 4
    then show ?thesis by (simp add: to_double_0 to_double_8)
  next
    case 5
    then show ?thesis using x_sum_91 by simp
  qed
qed

text \<open>
  C3. For every angle of the planners, from 0 to 91 (the documentation gives 0 to 90, the
  frame generator passes 1 to 91), the x displacement of the top planner plus the one of
  the bottom planner, added as Python adds two floats, is the padding, 8.0, exactly.
\<close>

theorem x_vals_complementary:
  assumes "0 \<le> a" "a \<le> 91"
  shows "\<exists>xt xb. top_x_val a = Inr xt \<and> bottom_x_val a = Inr xb
           \<and> py_add (PFloat xt) (PFloat xb) = PFloat (of_int PADDING_SIZE)"
proof -
  have small: "\<bar>a\<bar> \<le> 2 ^ 31" using assms by simp
  show ?thesis
    using top_x_val_small [OF small] bottom_x_val_small [OF small] x_sum_0_91 [OF assms]
    by (simp add: PADDING_SIZE_def)
qed

theorem x_vals_complementary_witness:
  "(0::int) \<le> 1 \<and> (1::int) \<le> 91
   \<and> (\<exists>xt xb. top_x_val 1 = Inr xt \<and> bottom_x_val 1 = Inr xb
         \<and> py_add (PFloat xt) (PFloat xb) = PFloat (of_int PADDING_SIZE))"
  using x_vals_complementary [of 1] by simp

text \<open>
  The equality is one of rounded values: outside this range the rounding errors of the
  two quotients need not cancel, and at angle 92 the sum is the float just below 8.
\<close>

lemma x_vals_sum_at_92:
  "top_x_val 92 = Inr (287729976193115 / 35184372088832)
   \<and> bottom_x_val 92 = Inr (- (6405119470038039 / 36028797018963968))
   \<and> py_add (PFloat (287729976193115 / 35184372088832))
        (PFloat (- (6405119470038039 / 36028797018963968)))
       = PFloat (9007199254740991 / 1125899906842624)
   \<and> (9007199254740991 / 1125899906842624 :: rat) \<noteq> of_int PADDING_SIZE"
  using top_x_val_small [of 92] bottom_x_val_small [of 92] x_sum_92
  by (simp add: PADDING_SIZE_def)

end
